theory Spec2Isabelle
  imports Main "HOL-Library.Sublist"
begin

section \<open>JavaScript strings\<close>

text \<open>
  A JavaScript string is modelled as a \<^typ>\<open>string\<close>: each \<^typ>\<open>char\<close> stands for
  one code unit below 256 (the Latin-1 range). \<open>toLowerCase\<close>, \<open>trim\<close> and the
  regular expression class \<open>\s\<close> are written out for that range.
\<close>

definition toLowerCase_char :: "char \<Rightarrow> char" where
  "toLowerCase_char c =
     (let n = (of_char c :: nat)
      in if (65 \<le> n \<and> n \<le> 90) \<or> (192 \<le> n \<and> n \<le> 222 \<and> n \<noteq> 215)
         then char_of (n + 32) else c)"

definition toLowerCase :: "string \<Rightarrow> string" where
  "toLowerCase s = map toLowerCase_char s"

text \<open>\<open>s.includes(k)\<close>: \<open>k\<close> occurs in \<open>s\<close> as a contiguous run of characters.\<close>

fun startsWith :: "string \<Rightarrow> string \<Rightarrow> bool" where
  "startsWith s [] = True"
| "startsWith [] (k # ks) = False"
| "startsWith (c # cs) (k # ks) = (c = k \<and> startsWith cs ks)"

fun includes_str :: "string \<Rightarrow> string \<Rightarrow> bool" where
  "includes_str [] k = (k = [])"
| "includes_str (c # cs) k = (startsWith (c # cs) k \<or> includes_str cs k)"

text \<open>White space as \<open>\s\<close> and \<open>trim\<close> see it: tab, line feed, vertical tab, form feed,
  carriage return, space and the no-break space.\<close>

definition isSpace :: "char \<Rightarrow> bool" where
  "isSpace c = ((of_char c :: nat) \<in> {9, 10, 11, 12, 13, 32, 160})"

definition trim :: "string \<Rightarrow> string" where
  "trim s = rev (dropWhile isSpace (rev (dropWhile isSpace s)))"

text \<open>\<open>s.split(d)\<close> for a one-character separator: never empty, so that \<open>pop()\<close> always
  yields a string.\<close>

fun split_on :: "char \<Rightarrow> string \<Rightarrow> string list" where
  "split_on d [] = [[]]"
| "split_on d (c # cs) =
     (if c = d then [] # split_on d cs
      else (case split_on d cs of
              [] \<Rightarrow> [[c]]
            | p # ps \<Rightarrow> (c # p) # ps))"

definition pop :: "string list \<Rightarrow> string" where
  "pop ps = (case rev ps of [] \<Rightarrow> [] | p # _ \<Rightarrow> p)"

section \<open>The link pattern\<close>

text \<open>
  \<^verbatim>\<open>const urlRegex = /https?:\/\/[^\s<>"']+/g;  body.match(urlRegex) || []\<close>

  A match starts with \<open>http://\<close> or \<open>https://\<close>, followed by at least one character that
  is neither white space nor one of \<open><\<close>, \<open>>\<close>, the double quote and the single quote;
  it extends over all such characters (the \<open>+\<close> is greedy). With the \<open>g\<close> flag,
  \<open>match\<close> returns the successive non-overlapping matches from left to right.
\<close>

definition urlChar :: "char \<Rightarrow> bool" where
  "urlChar c = (\<not> isSpace c \<and> (of_char c :: nat) \<notin> {60, 62, 34, 39})"

definition urlTail :: "string \<Rightarrow> (string \<times> string) option" where
  "urlTail s =
     (case s of
        [] \<Rightarrow> None
      | c # cs \<Rightarrow> if urlChar c then Some (takeWhile urlChar s, dropWhile urlChar s) else None)"

definition urlAt :: "string \<Rightarrow> (string \<times> string) option" where
  "urlAt s =
     (if startsWith s ''https://'' then
        (case urlTail (drop 8 s) of
           None \<Rightarrow> None
         | Some (t, r) \<Rightarrow> Some (''https://'' @ t, r))
      else if startsWith s ''http://'' then
        (case urlTail (drop 7 s) of
           None \<Rightarrow> None
         | Some (t, r) \<Rightarrow> Some (''http://'' @ t, r))
      else None)"

lemma urlTail_shorter: "urlTail s = Some (t, r) \<Longrightarrow> length r < length s"
  by (cases s) (auto simp: urlTail_def length_dropWhile_le less_Suc_eq_le split: if_splits)

lemma urlAt_shorter: "urlAt s = Some (t, r) \<Longrightarrow> length r < length s"
  by (auto simp: urlAt_def split: if_splits option.splits dest!: urlTail_shorter)

function match_urlRegex :: "string \<Rightarrow> string list" where
  "match_urlRegex [] = []"
| "match_urlRegex (c # cs) =
     (case urlAt (c # cs) of
        Some (t, r) \<Rightarrow> t # match_urlRegex r
      | None \<Rightarrow> match_urlRegex cs)"
  by pat_completeness auto
termination
  by (relation "measure length") (auto dest: urlAt_shorter)

section \<open>Data model\<close>

text \<open>The Mongoose schemas \<open>Email\<close>, \<open>Label\<close>, \<open>AutoReply\<close> and \<open>User\<close>. Object ids are
  natural numbers. An attachment's fields are not \<open>required\<close> in the schema, so each may
  be absent.\<close>

record attachment =
  url :: "string option"
  filename :: "string option"
  size_att :: "nat option"

datatype folder = Inbox | Sent | Draft | Starred | Trash | Spam

record email =
  email_id :: nat
  sender :: string
  recipients :: "string list"
  cc :: "string list"
  bcc :: "string list"
  subject :: string
  body :: string
  attachments :: "attachment list"
  folder :: folder
  labels :: "nat list"
  isRead :: bool
  isStarred :: bool
  isSpam :: bool
  sentAt :: nat
  draftSavedAt :: "nat option"

record label =
  label_id :: nat
  userId :: nat
  name :: string
  isSystemLabel :: bool

record autoReply =
  ar_userId :: nat
  enabled :: bool
  message :: string

record user =
  user_id :: nat
  user_email :: "string option"
  isEmailVerified :: bool

text \<open>What a handler leaves behind besides its response: the collections, the events
  emitted on the socket and the lines written to the console. \<open>next_id\<close> is the supply of
  fresh object ids. \<open>spam_calls\<close> is a ghost counter: it counts the calls of \<open>detectSpam\<close>
  and nothing reads it.\<close>

record notification =
  channel :: string
  n_sender :: string
  n_subject :: string
  n_sentAt :: nat
  n_isSpam :: "bool option"

record world =
  users :: "user list"
  emails :: "email list"
  labelsTbl :: "label list"
  autoReplies :: "autoReply list"
  next_id :: nat
  emitted :: "notification list"
  console :: "string list"
  spam_calls :: nat

text \<open>Values of a request body, as \<open>express.json()\<close> or the form parser deliver them.\<close>

datatype jsval = JUndefined | JNull | JBool bool | JNum int | JStr string | JArr "jsval list"

text \<open>The collaborators a request runs against. \<open>fault\<close> tells which calls to the
  database or to the attachment store reject; \<open>io\<close> is \<open>req.app.get('io')\<close> being set;
  \<open>emit_fault\<close> tells for which channel \<open>emit\<close> throws; \<open>now\<close> is the clock, read once per
  request; \<open>JSON_parse\<close> is the library's parser, \<open>None\<close> when it throws. A rejected
  \<open>Email_save\<close> stands for any reason the store has to refuse a document, schema
  validation included.\<close>

text \<open>An uploaded file as multer hands it over (\<open>req.files\<close>), together with the
  \<open>secure_url\<close> the attachment store answers for it.\<close>

record upfile =
  originalname :: string
  file_size :: nat
  secure_url :: string

datatype db_op =
    User_find
  | User_findOne string
  | User_findById nat
  | Email_save email
  | Email_findById
  | Email_findOne
  | Email_update
  | Email_updateMany
  | Email_deleteOne
  | Label_findOne
  | Label_save
  | Label_deleteOne
  | AutoReply_findOne
  | Cloudinary_upload upfile

datatype exn = TypeError | DbError | CastError | UploadError

record env =
  fault :: "db_op \<Rightarrow> bool"
  io :: bool
  emit_fault :: "string \<Rightarrow> bool"
  now :: nat
  JSON_parse :: "string \<Rightarrow> jsval option"

section \<open>Spam detection\<close>

text \<open>The object handed to \<open>detectSpam\<close>, as far as the function reads it: any of the
  properties may be absent.\<close>

record mail_obj =
  m_subject :: "string option"
  m_body :: "string option"
  m_recipients :: "string list option"
  m_attachments :: "attachment list option"

definition spamKeywords :: "string list" where
  "spamKeywords =
     [''win a prize'', ''free offer'', ''click here'', ''urgent'', ''limited time offer'',
      ''make money fast'', ''lottery'', ''guaranteed'', ''viagra'', ''cheap pills'']"

definition hasSpamKeyword :: "string \<Rightarrow> string \<Rightarrow> bool" where
  "hasSpamKeyword subj bod =
     list_ex (\<lambda>keyword. includes_str subj keyword \<or> includes_str bod keyword) spamKeywords"

text \<open>\<open>User.findOne({ email: sender, isEmailVerified: true })\<close>\<close>

definition findVerified :: "user list \<Rightarrow> string \<Rightarrow> user option" where
  "findVerified us e = find (\<lambda>u. user_email u = Some e \<and> isEmailVerified u) us"

definition allowedExt :: "string list" where
  "allowedExt = [''jpg'', ''jpeg'', ''png'', ''pdf'']"

text \<open>The callback of \<open>attachments.some\<close>: an absent size compares false, an absent
  file name throws when \<open>split\<close> is called on it.\<close>

definition suspicious :: "attachment \<Rightarrow> exn + bool" where
  "suspicious a =
     (if (case size_att a of None \<Rightarrow> False | Some n \<Rightarrow> n > 5 * 1024 * 1024) then Inr True
      else (case filename a of
              None \<Rightarrow> Inl TypeError
            | Some f \<Rightarrow> Inr (toLowerCase (pop (split_on CHR ''.'' f)) \<notin> set allowedExt)))"

fun some_suspicious :: "attachment list \<Rightarrow> exn + bool" where
  "some_suspicious [] = Inr False"
| "some_suspicious (a # as) =
     (case suspicious a of
        Inl e \<Rightarrow> Inl e
      | Inr True \<Rightarrow> Inr True
      | Inr False \<Rightarrow> some_suspicious as)"

text \<open>The body of the \<open>try\<close> block.\<close>

definition detectSpam_try :: "env \<Rightarrow> user list \<Rightarrow> mail_obj \<Rightarrow> string \<Rightarrow> exn + bool" where
  "detectSpam_try ev us m sndr =
     (case m_subject m of
        None \<Rightarrow> Inl TypeError
      | Some s \<Rightarrow>
     (case m_body m of
        None \<Rightarrow> Inl TypeError
      | Some b \<Rightarrow>
        if hasSpamKeyword (toLowerCase s) (toLowerCase b) then Inr True
        else if length (match_urlRegex (toLowerCase b)) > 5 then Inr True
        else if fault ev (User_findOne sndr) then Inl DbError
        else if findVerified us sndr = None then Inr True
        else (case m_recipients m of
                None \<Rightarrow> Inl TypeError
              | Some rs \<Rightarrow>
                if length rs > 10 then Inr True
                else (case m_attachments m of
                        None \<Rightarrow> Inr False
                      | Some as \<Rightarrow>
                          if length as > 0 then
                            (case some_suspicious as of
                               Inl e \<Rightarrow> Inl e
                             | Inr True \<Rightarrow> Inr True
                             | Inr False \<Rightarrow> Inr False)
                          else Inr False))))"

text \<open>The whole function: the \<open>catch\<close> logs and answers \<open>false\<close>.\<close>

definition detectSpam :: "env \<Rightarrow> mail_obj \<Rightarrow> string \<Rightarrow> world \<Rightarrow> bool \<times> world" where
  "detectSpam ev m sndr w =
     (case detectSpam_try ev (users w) m sndr of
        Inr v \<Rightarrow> (v, w)
      | Inl e \<Rightarrow> (False, w\<lparr>console := console w @ [''Spam detection error'']\<rparr>))"

text \<open>The same call with the ghost counter advanced.\<close>

definition detectSpam_counted :: "env \<Rightarrow> mail_obj \<Rightarrow> string \<Rightarrow> world \<Rightarrow> bool \<times> world" where
  "detectSpam_counted ev m sndr w =
     detectSpam ev m sndr (w\<lparr>spam_calls := Suc (spam_calls w)\<rparr>)"

section \<open>Requests, responses and the primitives of a handler\<close>

datatype response = Ok_message string | Ok_email email | Error_json nat string

text \<open>The \<open>Authorization\<close> header: absent, rejected by \<open>jwt.verify\<close>, or carrying a user id.\<close>

datatype token = NoToken | InvalidToken | TokenFor nat

text \<open>A path parameter that names a document: \<open>BadId\<close> is a string that is no object id.\<close>

datatype idparam = BadId | Id nat

fun truthy :: "jsval \<Rightarrow> bool" where
  "truthy JUndefined = False"
| "truthy JNull = False"
| "truthy (JBool b) = b"
| "truthy (JNum n) = (n \<noteq> 0)"
| "truthy (JStr s) = (s \<noteq> [])"
| "truthy (JArr xs) = True"

fun isArray :: "jsval \<Rightarrow> bool" where
  "isArray (JArr xs) = True"
| "isArray v = False"

fun elements :: "jsval \<Rightarrow> jsval list" where
  "elements (JArr xs) = xs"
| "elements v = []"

fun isString :: "jsval \<Rightarrow> bool" where
  "isString (JStr s) = True"
| "isString v = False"

fun stringOf :: "jsval \<Rightarrow> string" where
  "stringOf (JStr s) = s"
| "stringOf v = []"

text \<open>\<open>xs.filter(email => typeof email === 'string' && email.trim())\<close>\<close>

fun validStrings :: "jsval list \<Rightarrow> string list" where
  "validStrings [] = []"
| "validStrings (JStr s # xs) = (if trim s \<noteq> [] then s # validStrings xs else validStrings xs)"
| "validStrings (v # xs) = validStrings xs"

text \<open>A handler's step either throws or returns, and changes the world in both cases.\<close>

type_synonym 'a act = "world \<Rightarrow> (exn + 'a) \<times> world"

definition ret :: "'a \<Rightarrow> 'a act" where
  "ret x w = (Inr x, w)"

definition throw :: "exn \<Rightarrow> 'a act" where
  "throw e w = (Inl e, w)"

definition andThen :: "'a act \<Rightarrow> ('a \<Rightarrow> 'b act) \<Rightarrow> 'b act" where
  "andThen m f w = (case m w of (Inl e, w') \<Rightarrow> (Inl e, w') | (Inr x, w') \<Rightarrow> f x w')"

fun for_each :: "('a \<Rightarrow> unit act) \<Rightarrow> 'a list \<Rightarrow> unit act" where
  "for_each f [] = ret ()"
| "for_each f (x # xs) = andThen (f x) (\<lambda>_. for_each f xs)"

definition log_line :: "string \<Rightarrow> world \<Rightarrow> world" where
  "log_line l w = w\<lparr>console := console w @ [l]\<rparr>"

text \<open>\<open>new Email({...})\<close>: the schema's defaults, over which the given fields are written.
  The object id is set when the document is first saved.\<close>

definition new_Email :: "env \<Rightarrow> email" where
  "new_Email ev =
     \<lparr>email_id = 0, sender = [], recipients = [], cc = [], bcc = [], subject = [], body = [],
      attachments = [], folder = Inbox, labels = [], isRead = False, isStarred = False,
      isSpam = False, sentAt = now ev, draftSavedAt = None\<rparr>"

text \<open>\<open>await doc.save()\<close> for a new document.\<close>

definition save_email :: "env \<Rightarrow> email \<Rightarrow> email act" where
  "save_email ev e w =
     (if fault ev (Email_save e) then (Inl DbError, w)
      else (let e' = e\<lparr>email_id := next_id w\<rparr>
            in (Inr e', w\<lparr>emails := emails w @ [e'], next_id := Suc (next_id w)\<rparr>)))"

text \<open>\<open>User.find({ email: { $in: allEmails }, isEmailVerified: true })\<close>\<close>

definition verifiedAmong :: "user list \<Rightarrow> string list \<Rightarrow> user list" where
  "verifiedAmong us allEmails =
     filter (\<lambda>u. (case user_email u of None \<Rightarrow> False | Some e \<Rightarrow> e \<in> set allEmails) \<and>
                 isEmailVerified u) us"

definition User_find_verified :: "env \<Rightarrow> string list \<Rightarrow> user list act" where
  "User_find_verified ev allEmails w =
     (if fault ev User_find then (Inl DbError, w)
      else (Inr (verifiedAmong (users w) allEmails), w))"

text \<open>\<open>User.findOne({ email: e, isEmailVerified: true })\<close> in a handler.\<close>

definition User_findOne_verified :: "env \<Rightarrow> string \<Rightarrow> user option act" where
  "User_findOne_verified ev e w =
     (if fault ev (User_findOne e) then (Inl DbError, w)
      else (Inr (findVerified (users w) e), w))"

text \<open>The upload loop: one attachment per file, in order.\<close>

definition attachmentOf :: "upfile \<Rightarrow> attachment" where
  "attachmentOf f =
     \<lparr>url = Some (secure_url f), filename = Some (originalname f), size_att = Some (file_size f)\<rparr>"

fun upload_all :: "env \<Rightarrow> upfile list \<Rightarrow> attachment list act" where
  "upload_all ev [] = ret []"
| "upload_all ev (f # fs) =
     (if fault ev (Cloudinary_upload f) then throw UploadError
      else andThen (upload_all ev fs) (\<lambda>as. ret (attachmentOf f # as)))"

text \<open>\<open>Label.ensureSpamLabel(userId)\<close>\<close>

definition ensureSpamLabel :: "env \<Rightarrow> nat \<Rightarrow> label act" where
  "ensureSpamLabel ev uid w =
     (if fault ev Label_findOne then (Inl DbError, w)
      else (case find (\<lambda>l. userId l = uid \<and> name l = ''Spam'' \<and> isSystemLabel l) (labelsTbl w) of
              Some spamLabel \<Rightarrow> (Inr spamLabel, w)
            | None \<Rightarrow>
                if fault ev Label_save then (Inl DbError, w)
                else (let newSpamLabel = \<lparr>label_id = next_id w, userId = uid, name = ''Spam'',
                                           isSystemLabel = True\<rparr>
                      in (Inr newSpamLabel,
                          w\<lparr>labelsTbl := labelsTbl w @ [newSpamLabel],
                            next_id := Suc (next_id w)\<rparr>))))"

text \<open>\<open>AutoReply.findOne({ userId })\<close>\<close>

definition AutoReply_find :: "env \<Rightarrow> nat \<Rightarrow> autoReply option act" where
  "AutoReply_find ev uid w =
     (if fault ev AutoReply_findOne then (Inl DbError, w)
      else (Inr (find (\<lambda>a. ar_userId a = uid) (autoReplies w)), w))"

text \<open>The notification block of the fan-out loops: without \<open>io\<close> a warning, and an \<open>emit\<close>
  that throws is caught and logged.\<close>

definition notify :: "env \<Rightarrow> notification \<Rightarrow> world \<Rightarrow> world" where
  "notify ev n w =
     (if io ev then
        (if emit_fault ev (channel n) then log_line ''WebSocket error'' w
         else w\<lparr>emitted := emitted w @ [n]\<rparr>)
      else log_line ''Socket.IO not initialized, skipping WebSocket notification'' w)"

text \<open>The notification of \<open>/reply\<close>, which has no \<open>try\<close> around \<open>emit\<close>.\<close>

definition notify_unguarded :: "env \<Rightarrow> notification \<Rightarrow> unit act" where
  "notify_unguarded ev n w =
     (if io ev then
        (if emit_fault ev (channel n) then (Inl TypeError, w)
         else (Inr (), w\<lparr>emitted := emitted w @ [n]\<rparr>))
      else (Inr (), log_line ''Socket.IO not initialized, skipping WebSocket notification'' w))"

text \<open>What \<open>detectSpam\<close> reads of a document.\<close>

definition doc_view :: "email \<Rightarrow> mail_obj" where
  "doc_view e =
     \<lparr>m_subject = Some (subject e), m_body = Some (body e),
      m_recipients = Some (recipients e), m_attachments = Some (attachments e)\<rparr>"

definition classify :: "env \<Rightarrow> email \<Rightarrow> string \<Rightarrow> bool act" where
  "classify ev e sndr w = (case detectSpam_counted ev (doc_view e) sndr w of (v, w') \<Rightarrow> (Inr v, w'))"

section \<open>The middleware\<close>

text \<open>\<open>authenticateToken\<close>: the \<open>catch\<close> covers both \<open>jwt.verify\<close> and the lookup.\<close>

definition authenticateToken :: "env \<Rightarrow> token \<Rightarrow> world \<Rightarrow> (response + user) \<times> world" where
  "authenticateToken ev t w =
     (case t of
        NoToken \<Rightarrow> (Inl (Error_json 401 ''No token provided''), w)
      | InvalidToken \<Rightarrow>
          (Inl (Error_json 401 ''Invalid token''), log_line ''Token verification error'' w)
      | TokenFor uid \<Rightarrow>
          if fault ev (User_findById uid)
          then (Inl (Error_json 401 ''Invalid token''), log_line ''Token verification error'' w)
          else (case find (\<lambda>u. user_id u = uid) (users w) of
                  None \<Rightarrow> (Inl (Error_json 404 ''User not found''), w)
                | Some u \<Rightarrow> (Inr u, w)))"

text \<open>\<open>ensureEmailVerified\<close>; an empty address is falsy.\<close>

definition ensureEmailVerified :: "user \<Rightarrow> response + string" where
  "ensureEmailVerified u =
     (case user_email u of
        None \<Rightarrow> Inl (Error_json 400 ''Verified email required to perform this action'')
      | Some e \<Rightarrow>
          if e = [] \<or> \<not> isEmailVerified u
          then Inl (Error_json 400 ''Verified email required to perform this action'')
          else Inr e)"

text \<open>A route behind both: the handler receives \<open>req.user\<close> and \<open>req.user.email\<close>.\<close>

definition guarded ::
  "env \<Rightarrow> token \<Rightarrow> (user \<Rightarrow> string \<Rightarrow> world \<Rightarrow> response \<times> world) \<Rightarrow> world \<Rightarrow> response \<times> world"
where
  "guarded ev t handler w =
     (case authenticateToken ev t w of
        (Inl r, w') \<Rightarrow> (r, w')
      | (Inr u, w') \<Rightarrow>
          (case ensureEmailVerified u of
             Inl r \<Rightarrow> (r, w')
           | Inr me \<Rightarrow> handler u me w'))"

text \<open>The outer \<open>try ... catch\<close> of a handler: a thrown exception is logged and answered
  with status 500.\<close>

definition catch500 :: "string \<Rightarrow> response act \<Rightarrow> world \<Rightarrow> response \<times> world" where
  "catch500 tag m w =
     (case m w of
        (Inr r, w') \<Rightarrow> (r, w')
      | (Inl e, w') \<Rightarrow> (Error_json 500 ''Server error'', log_line tag w'))"

section \<open>POST /send\<close>

record send_request =
  s_recipients :: jsval
  s_cc :: jsval
  s_bcc :: jsval
  s_subject :: jsval
  s_body :: jsval
  s_files :: "upfile list"

text \<open>\<open>if (typeof x === 'string') x = JSON.parse(x)\<close>\<close>

definition parse_if_string :: "env \<Rightarrow> jsval \<Rightarrow> jsval option" where
  "parse_if_string ev v = (case v of JStr s \<Rightarrow> JSON_parse ev s | _ \<Rightarrow> Some v)"

text \<open>\<open>cc = cc ? cc.filter(email => typeof email === 'string' && email.trim()) : []\<close>\<close>

definition filterOptional :: "jsval \<Rightarrow> string list" where
  "filterOptional v = (if truthy v then validStrings (elements v) else [])"

text \<open>The Spam label for the owner of a copy: \<open>isSpam && recipientUser\<close>.\<close>

definition spamLabelFor :: "env \<Rightarrow> bool \<Rightarrow> user option \<Rightarrow> label option act" where
  "spamLabelFor ev spam recipientUser =
     (case recipientUser of
        None \<Rightarrow> ret None
      | Some u \<Rightarrow>
          if spam then andThen (ensureSpamLabel ev (user_id u)) (\<lambda>l. ret (Some l))
          else ret None)"

text \<open>The part the three loops of \<open>/send\<close> have in common: the owner's Spam label, the
  copy, the notification. \<open>sent\<close> is the sender's copy, from which the loops take the
  fields of the message.\<close>

definition deliver_copy :: "env \<Rightarrow> user list \<Rightarrow> email \<Rightarrow> bool \<Rightarrow> string \<Rightarrow> user option act" where
  "deliver_copy ev recipientUsers sentEmail spam recipient =
     (let recipientUser = find (\<lambda>u. user_email u = Some recipient) recipientUsers
      in andThen (spamLabelFor ev spam recipientUser) (\<lambda>spamLabel.
         andThen (save_email ev
                    ((new_Email ev)
                       \<lparr>sender := sender sentEmail, recipients := [recipient],
                        cc := cc sentEmail, bcc := bcc sentEmail,
                        subject := subject sentEmail, body := body sentEmail,
                        attachments := attachments sentEmail,
                        folder := (if spam then Spam else Inbox),
                        sentAt := sentAt sentEmail, isSpam := spam,
                        labels := (case spamLabel of
                                     Some l \<Rightarrow> if spam then [label_id l] else []
                                   | None \<Rightarrow> [])\<rparr>)) (\<lambda>inboxEmail w.
           (Inr recipientUser,
            notify ev \<lparr>channel = recipient, n_sender = sender sentEmail,
                       n_subject = subject sentEmail, n_sentAt = sentAt inboxEmail,
                       n_isSpam = Some spam\<rparr> w))))"

text \<open>The auto-reply block of the loop over the To recipients.\<close>

definition autoReplyTo :: "env \<Rightarrow> email \<Rightarrow> bool \<Rightarrow> string \<Rightarrow> user option \<Rightarrow> unit act" where
  "autoReplyTo ev sentEmail spam recipient recipientUser =
     (case recipientUser of
        None \<Rightarrow> ret ()
      | Some u \<Rightarrow>
          if spam then ret ()
          else andThen (AutoReply_find ev (user_id u)) (\<lambda>ar.
            (case ar of
               None \<Rightarrow> ret ()
             | Some a \<Rightarrow>
                 if enabled a \<and> isEmailVerified u then
                   andThen (save_email ev
                              ((new_Email ev)
                                 \<lparr>sender := recipient, recipients := [sender sentEmail],
                                  subject := ''Auto Reply: '' @ subject sentEmail,
                                  body := message a, folder := Sent,
                                  sentAt := now ev\<rparr>)) (\<lambda>replyEmail.
                   andThen (save_email ev
                              ((new_Email ev)
                                 \<lparr>sender := recipient, recipients := [sender sentEmail],
                                  subject := ''Auto Reply: '' @ subject sentEmail,
                                  body := message a, folder := Inbox,
                                  sentAt := sentAt replyEmail\<rparr>)) (\<lambda>senderInboxEmail w.
                     (Inr (),
                      notify ev \<lparr>channel = sender sentEmail, n_sender = recipient,
                                 n_subject = ''Auto Reply: '' @ subject sentEmail,
                                 n_sentAt = sentAt senderInboxEmail, n_isSpam = None\<rparr> w)))
                 else ret ())))"

definition deliver_to :: "env \<Rightarrow> user list \<Rightarrow> email \<Rightarrow> bool \<Rightarrow> string \<Rightarrow> unit act" where
  "deliver_to ev recipientUsers sentEmail spam recipient =
     andThen (deliver_copy ev recipientUsers sentEmail spam recipient)
       (autoReplyTo ev sentEmail spam recipient)"

definition deliver_cc :: "env \<Rightarrow> user list \<Rightarrow> email \<Rightarrow> bool \<Rightarrow> string \<Rightarrow> unit act" where
  "deliver_cc ev recipientUsers sentEmail spam ccEmail =
     andThen (deliver_copy ev recipientUsers sentEmail spam ccEmail) (\<lambda>_. ret ())"

text \<open>The \<open>try\<close> block of \<open>/send\<close>, entered with the filtered lists.\<close>

definition send_try ::
  "env \<Rightarrow> string \<Rightarrow> string list \<Rightarrow> string list \<Rightarrow> string list \<Rightarrow> string \<Rightarrow> string \<Rightarrow> upfile list
     \<Rightarrow> response act"
where
  "send_try ev me rs ccs bccs subj bod files =
     andThen (User_find_verified ev (remdups (rs @ ccs @ bccs))) (\<lambda>recipientUsers.
       if \<not> list_all (\<lambda>e. Some e \<in> set (map user_email recipientUsers)) rs
       then ret (Error_json 400 ''Some recipients not found or unverified'')
       else if length ccs > 0 \<and>
               \<not> list_all (\<lambda>c. Some c \<in> set (map user_email recipientUsers)) ccs
       then ret (Error_json 400 ''Some CC recipients not found or unverified'')
       else if length bccs > 0 \<and>
               \<not> list_all (\<lambda>b. Some b \<in> set (map user_email recipientUsers)) bccs
       then ret (Error_json 400 ''Some BCC recipients not found or unverified'')
       else
         andThen (upload_all ev files) (\<lambda>atts.
         andThen (save_email ev
                    ((new_Email ev)
                       \<lparr>sender := me, recipients := rs, cc := ccs, bcc := bccs,
                        subject := subj, body := bod, attachments := atts,
                        folder := Sent, sentAt := now ev\<rparr>)) (\<lambda>sentEmail.
         andThen (classify ev sentEmail me) (\<lambda>spam.
         andThen (for_each (deliver_to ev recipientUsers sentEmail spam) rs) (\<lambda>_.
         andThen (for_each (deliver_cc ev recipientUsers sentEmail spam) ccs) (\<lambda>_.
         andThen (for_each (deliver_cc ev recipientUsers sentEmail spam) bccs) (\<lambda>_.
         ret (Ok_message ''Email sent successfully''))))))))"

text \<open>The handler from the parsing of the body on.\<close>

definition send_handler :: "env \<Rightarrow> send_request \<Rightarrow> string \<Rightarrow> world \<Rightarrow> response \<times> world" where
  "send_handler ev req me w =
     (case (parse_if_string ev (s_recipients req), parse_if_string ev (s_cc req),
            parse_if_string ev (s_bcc req)) of
        (Some recipients0, Some cc0, Some bcc0) \<Rightarrow>
          if \<not> isArray recipients0 \<or> length (elements recipients0) = 0 \<or>
             \<not> truthy (s_subject req) \<or> \<not> isString (s_subject req) \<or>
             \<not> truthy (s_body req) \<or> \<not> isString (s_body req)
          then (Error_json 400
                  ''Recipients (array), subject (string), and body (string) are required'', w)
          else if truthy cc0 \<and> \<not> isArray cc0 then (Error_json 400 ''CC must be an array'', w)
          else if truthy bcc0 \<and> \<not> isArray bcc0 then (Error_json 400 ''BCC must be an array'', w)
          else
            (let rs = validStrings (elements recipients0);
                 ccs = filterOptional cc0;
                 bccs = filterOptional bcc0
             in if length rs = 0
                then (Error_json 400 ''At least one valid recipient is required'', w)
                else catch500 ''Send email error''
                       (send_try ev me rs ccs bccs (stringOf (s_subject req))
                          (stringOf (s_body req)) (s_files req)) w)
      | _ \<Rightarrow>
          (Error_json 400 ''Invalid JSON format in recipients, cc, or bcc'',
           log_line ''JSON parse error'' w))"

definition send :: "env \<Rightarrow> token \<Rightarrow> send_request \<Rightarrow> world \<Rightarrow> response \<times> world" where
  "send ev t req = guarded ev t (\<lambda>u me. send_handler ev req me)"

section \<open>POST /reply/:emailId and POST /forward/:emailId\<close>

text \<open>The text a template literal \<open>`${v}`\<close> inserts for a value.\<close>

fun digits :: "nat \<Rightarrow> string" where
  "digits n = (if n < 10 then [char_of (48 + n)] else digits (n div 10) @ [char_of (48 + n mod 10)])"

fun joinWith :: "string \<Rightarrow> string list \<Rightarrow> string" where
  "joinWith sep [] = []"
| "joinWith sep [x] = x"
| "joinWith sep (x # y # ys) = x @ sep @ joinWith sep (y # ys)"

fun templ :: "jsval \<Rightarrow> string" where
  "templ JUndefined = ''undefined''"
| "templ JNull = ''null''"
| "templ (JBool b) = (if b then ''true'' else ''false'')"
| "templ (JNum n) = (if n < 0 then ''-'' @ digits (nat (- n)) else digits (nat n))"
| "templ (JStr s) = s"
| "templ (JArr xs) =
     joinWith '','' (map (\<lambda>x. if x = JUndefined \<or> x = JNull then [] else templ x) xs)"

text \<open>\<open>Email.findById(id)\<close>: a string that is no object id makes the cast throw.\<close>

definition Email_find_by_id :: "env \<Rightarrow> idparam \<Rightarrow> email option act" where
  "Email_find_by_id ev i w =
     (case i of
        BadId \<Rightarrow> (Inl CastError, w)
      | Id n \<Rightarrow>
          if fault ev Email_findById then (Inl DbError, w)
          else (Inr (find (\<lambda>e. email_id e = n) (emails w)), w))"

record reply_request =
  r_emailId :: idparam
  r_body :: jsval
  r_files :: "upfile list"

definition reply_try :: "env \<Rightarrow> string \<Rightarrow> reply_request \<Rightarrow> response act" where
  "reply_try ev me req =
     andThen (Email_find_by_id ev (r_emailId req)) (\<lambda>found.
       (case found of
          None \<Rightarrow> ret (Error_json 404 ''Email not found'')
        | Some originalEmail \<Rightarrow>
     andThen (User_findOne_verified ev (sender originalEmail)) (\<lambda>found_user.
       (case found_user of
          None \<Rightarrow> ret (Error_json 400 ''Recipient email not found or unverified'')
        | Some recipientUser \<Rightarrow>
     andThen (upload_all ev (r_files req)) (\<lambda>atts.
       (let replyEmail =
              (new_Email ev)
                \<lparr>sender := me, recipients := [sender originalEmail],
                 subject := ''Re: '' @ subject originalEmail,
                 body := templ (r_body req) @ ''<br><br>--- Original Message ---<br>'' @
                         body originalEmail,
                 attachments := atts, folder := Sent\<rparr>
        in
     andThen (classify ev replyEmail me) (\<lambda>spam.
     andThen (if spam then andThen (ensureSpamLabel ev (user_id recipientUser)) (\<lambda>l. ret (Some l))
              else ret None) (\<lambda>spamLabel.
     andThen (save_email ev replyEmail) (\<lambda>_.
     andThen (save_email ev
                ((new_Email ev)
                   \<lparr>sender := me, recipients := [sender originalEmail],
                    subject := ''Re: '' @ subject originalEmail,
                    body := templ (r_body req) @ ''<br><br>--- Original Message ---<br>'' @
                            body originalEmail,
                    attachments := atts,
                    folder := (if spam then Spam else Inbox), isSpam := spam,
                    labels := (case spamLabel of
                                 Some l \<Rightarrow> if spam then [label_id l] else []
                               | None \<Rightarrow> [])\<rparr>)) (\<lambda>recipientInboxEmail.
     andThen (notify_unguarded ev
                \<lparr>channel = sender originalEmail, n_sender = me,
                 n_subject = ''Re: '' @ subject originalEmail,
                 n_sentAt = sentAt recipientInboxEmail, n_isSpam = Some spam\<rparr>) (\<lambda>_.
     ret (Ok_message ''Reply sent successfully''))))))))))))"

definition reply :: "env \<Rightarrow> token \<Rightarrow> reply_request \<Rightarrow> world \<Rightarrow> response \<times> world" where
  "reply ev t req = guarded ev t (\<lambda>u me. catch500 ''Reply email error'' (reply_try ev me req))"

record forward_request =
  f_emailId :: idparam
  f_recipients :: jsval
  f_body :: jsval
  f_files :: "upfile list"

text \<open>\<open>recipients.replace(/^"|"$/g, '').replace(/\\"/g, '"')\<close>\<close>

definition stripQuotes :: "string \<Rightarrow> string" where
  "stripQuotes s =
     (let s1 = (case s of c # cs \<Rightarrow> if c = CHR 0x22 then cs else s | [] \<Rightarrow> [])
      in (case rev s1 of c # cs \<Rightarrow> if c = CHR 0x22 then rev cs else s1 | [] \<Rightarrow> []))"

fun unescapeQuotes :: "string \<Rightarrow> string" where
  "unescapeQuotes (c # d # cs) =
     (if c = CHR 0x5C \<and> d = CHR 0x22 then CHR 0x22 # unescapeQuotes cs
      else c # unescapeQuotes (d # cs))"
| "unescapeQuotes cs = cs"

text \<open>The strings among the elements of an array, as the \<open>$in\<close> query matches them against
  the address of a user.\<close>

fun strings :: "jsval list \<Rightarrow> string list" where
  "strings [] = []"
| "strings (JStr s # xs) = s # strings xs"
| "strings (v # xs) = strings xs"

text \<open>The loop of \<open>/forward\<close>: like the loops of \<open>/send\<close>, but the copy has neither \<open>cc\<close> nor
  \<open>bcc\<close> and takes the default \<open>sentAt\<close>.\<close>

definition forward_copy :: "env \<Rightarrow> user list \<Rightarrow> email \<Rightarrow> bool \<Rightarrow> string \<Rightarrow> unit act" where
  "forward_copy ev recipientUsers forwardEmail spam recipient =
     (let recipientUser = find (\<lambda>u. user_email u = Some recipient) recipientUsers
      in andThen (spamLabelFor ev spam recipientUser) (\<lambda>spamLabel.
         andThen (save_email ev
                    ((new_Email ev)
                       \<lparr>sender := sender forwardEmail, recipients := [recipient],
                        subject := subject forwardEmail, body := body forwardEmail,
                        attachments := attachments forwardEmail,
                        folder := (if spam then Spam else Inbox), isSpam := spam,
                        labels := (case spamLabel of
                                     Some l \<Rightarrow> if spam then [label_id l] else []
                                   | None \<Rightarrow> [])\<rparr>)) (\<lambda>recipientInboxEmail w.
           (Inr (),
            notify ev \<lparr>channel = recipient, n_sender = sender forwardEmail,
                       n_subject = subject forwardEmail,
                       n_sentAt = sentAt recipientInboxEmail, n_isSpam = Some spam\<rparr> w))))"

definition forward_try :: "env \<Rightarrow> string \<Rightarrow> forward_request \<Rightarrow> jsval list \<Rightarrow> response act" where
  "forward_try ev me req rs =
     andThen (Email_find_by_id ev (f_emailId req)) (\<lambda>found.
       (case found of
          None \<Rightarrow> ret (Error_json 404 ''Email not found'')
        | Some originalEmail \<Rightarrow>
     andThen (User_find_verified ev (strings rs)) (\<lambda>recipientUsers.
       if length recipientUsers \<noteq> length rs
       then ret (Error_json 400 ''Some recipients not found or unverified'')
       else
     andThen (upload_all ev (f_files req)) (\<lambda>atts.
       (let forwardEmail =
              (new_Email ev)
                \<lparr>sender := me, recipients := map templ rs,
                 subject := ''Fwd: '' @ subject originalEmail,
                 body := (if truthy (f_body req) then templ (f_body req) else []) @
                         ''<br><br>--- Forwarded Message ---<br>'' @ body originalEmail,
                 attachments := attachments originalEmail @ atts, folder := Sent\<rparr>
        in
     andThen (classify ev forwardEmail me) (\<lambda>spam.
     andThen (save_email ev forwardEmail) (\<lambda>saved.
     andThen (for_each (forward_copy ev recipientUsers saved spam) (map templ rs)) (\<lambda>_.
     ret (Ok_message ''Email forwarded successfully'')))))))))"

definition forward_handler :: "env \<Rightarrow> forward_request \<Rightarrow> string \<Rightarrow> world \<Rightarrow> response \<times> world" where
  "forward_handler ev req me w =
     (case (case f_recipients req of
              JStr s \<Rightarrow> JSON_parse ev (unescapeQuotes (stripQuotes s))
            | v \<Rightarrow> Some v) of
        None \<Rightarrow>
          (Error_json 400 ''Invalid JSON format in recipients'',
           log_line ''JSON parse error for recipients'' w)
      | Some recipients0 \<Rightarrow>
          if \<not> truthy recipients0 \<or> \<not> isArray recipients0 \<or> length (elements recipients0) = 0
          then (Error_json 400 ''Recipients are required and must be an array'', w)
          else catch500 ''Forward email error''
                 (forward_try ev me req (elements recipients0)) w)"

definition forward :: "env \<Rightarrow> token \<Rightarrow> forward_request \<Rightarrow> world \<Rightarrow> response \<times> world" where
  "forward ev t req = guarded ev t (\<lambda>u me. forward_handler ev req me)"

section \<open>Status flags, labels, and reading one message\<close>

text \<open>The filter shared by the routes below:
  \<^verbatim>\<open>$or: [{ sender: me }, { recipients: me }, { cc: me }, { bcc: me }]\<close>\<close>

definition participant :: "string \<Rightarrow> email \<Rightarrow> bool" where
  "participant me e =
     (sender e = me \<or> me \<in> set (recipients e) \<or> me \<in> set (cc e) \<or> me \<in> set (bcc e))"

text \<open>\<open>updateOne\<close>: the first document that matches is changed; \<open>None\<close> when none matches.\<close>

fun updateOne :: "('a \<Rightarrow> bool) \<Rightarrow> ('a \<Rightarrow> 'a) \<Rightarrow> 'a list \<Rightarrow> 'a list option" where
  "updateOne P f [] = None"
| "updateOne P f (x # xs) =
     (if P x then Some (f x # xs)
      else (case updateOne P f xs of None \<Rightarrow> None | Some ys \<Rightarrow> Some (x # ys)))"

fun deleteOne :: "('a \<Rightarrow> bool) \<Rightarrow> 'a list \<Rightarrow> 'a list option" where
  "deleteOne P [] = None"
| "deleteOne P (x # xs) =
     (if P x then Some xs
      else (case deleteOne P xs of None \<Rightarrow> None | Some ys \<Rightarrow> Some (x # ys)))"

text \<open>\<open>findOneAndUpdate\<close> with \<open>new: true\<close>: the changed document is returned as well.\<close>

fun findOneAndUpdate :: "('a \<Rightarrow> bool) \<Rightarrow> ('a \<Rightarrow> 'a) \<Rightarrow> 'a list \<Rightarrow> ('a \<times> 'a list) option" where
  "findOneAndUpdate P f [] = None"
| "findOneAndUpdate P f (x # xs) =
     (if P x then Some (f x, f x # xs)
      else (case findOneAndUpdate P f xs of
              None \<Rightarrow> None
            | Some (y, ys) \<Rightarrow> Some (y, x # ys)))"

definition mark_read_try :: "env \<Rightarrow> string \<Rightarrow> idparam \<Rightarrow> jsval \<Rightarrow> response act" where
  "mark_read_try ev me emailId isRead_v w =
     (case emailId of
        BadId \<Rightarrow> (Inr (Error_json 400 ''Invalid email ID''), w)
      | Id n \<Rightarrow>
          (case isRead_v of
             JBool b \<Rightarrow>
               if fault ev Email_update then (Inl DbError, w)
               else (case updateOne (\<lambda>e. email_id e = n \<and> participant me e)
                            (\<lambda>e. e\<lparr>isRead := b\<rparr>) (emails w) of
                       None \<Rightarrow> (Inr (Error_json 404 ''Email not found or unauthorized''), w)
                     | Some es \<Rightarrow>
                         (Inr (Ok_message ''Email read status updated''), w\<lparr>emails := es\<rparr>))
           | _ \<Rightarrow> (Inr (Error_json 400 ''isRead must be a boolean''), w)))"

definition mark_read :: "env \<Rightarrow> token \<Rightarrow> idparam \<Rightarrow> jsval \<Rightarrow> world \<Rightarrow> response \<times> world" where
  "mark_read ev t emailId isRead_v =
     guarded ev t (\<lambda>u me. catch500 ''Mark read error'' (mark_read_try ev me emailId isRead_v))"

definition star_try :: "env \<Rightarrow> string \<Rightarrow> idparam \<Rightarrow> jsval \<Rightarrow> response act" where
  "star_try ev me emailId isStarred_v w =
     (case emailId of
        BadId \<Rightarrow> (Inr (Error_json 400 ''Invalid email ID format''), w)
      | Id n \<Rightarrow>
          (case isStarred_v of
             JBool b \<Rightarrow>
               if fault ev Email_update then (Inl DbError, w)
               else (case findOneAndUpdate (\<lambda>e. email_id e = n \<and> participant me e)
                            (\<lambda>e. e\<lparr>isStarred := b\<rparr>) (emails w) of
                       None \<Rightarrow>
                         (Inr (Error_json 404
                                 ''Email not found or you are not authorized to modify it''), w)
                     | Some (e, es) \<Rightarrow> (Inr (Ok_email e), w\<lparr>emails := es\<rparr>))
           | _ \<Rightarrow> (Inr (Error_json 400 ''isStarred must be a boolean value''), w)))"

definition star :: "env \<Rightarrow> token \<Rightarrow> idparam \<Rightarrow> jsval \<Rightarrow> world \<Rightarrow> response \<times> world" where
  "star ev t emailId isStarred_v =
     guarded ev t (\<lambda>u me. catch500 ''Star email error'' (star_try ev me emailId isStarred_v))"

definition move_to_trash_try :: "env \<Rightarrow> string \<Rightarrow> idparam \<Rightarrow> response act" where
  "move_to_trash_try ev me emailId w =
     (case emailId of
        BadId \<Rightarrow> (Inr (Error_json 400 ''Invalid email ID''), w)
      | Id n \<Rightarrow>
          if fault ev Email_update then (Inl DbError, w)
          else (case updateOne (\<lambda>e. email_id e = n \<and> participant me e)
                       (\<lambda>e. e\<lparr>folder := Trash\<rparr>) (emails w) of
                  None \<Rightarrow> (Inr (Error_json 404 ''Email not found or unauthorized''), w)
                | Some es \<Rightarrow> (Inr (Ok_message ''Email moved to trash''), w\<lparr>emails := es\<rparr>)))"

definition move_to_trash :: "env \<Rightarrow> token \<Rightarrow> idparam \<Rightarrow> world \<Rightarrow> response \<times> world" where
  "move_to_trash ev t emailId =
     guarded ev t (\<lambda>u me. catch500 ''Move to trash error'' (move_to_trash_try ev me emailId))"

text \<open>\<open>PATCH /emails/:emailId/labels\<close>: the label must be the caller's; any label of the
  caller, the system label included, can be added or removed.\<close>

definition email_labels_try ::
  "env \<Rightarrow> user \<Rightarrow> string \<Rightarrow> idparam \<Rightarrow> idparam \<Rightarrow> jsval \<Rightarrow> response act"
where
  "email_labels_try ev u me emailId labelId action w =
     (case (emailId, labelId) of
        (Id n, Id l) \<Rightarrow>
          if action \<noteq> JStr ''add'' \<and> action \<noteq> JStr ''remove''
          then (Inr (Error_json 400 ''Invalid action''), w)
          else if fault ev Email_findOne then (Inl DbError, w)
          else (case find (\<lambda>e. email_id e = n \<and> participant me e) (emails w) of
                  None \<Rightarrow> (Inr (Error_json 404 ''Email not found or unauthorized''), w)
                | Some e \<Rightarrow>
                    if fault ev Label_findOne then (Inl DbError, w)
                    else (case find (\<lambda>lb. label_id lb = l \<and> userId lb = user_id u)
                                 (labelsTbl w) of
                            None \<Rightarrow> (Inr (Error_json 404 ''Label not found or unauthorized''), w)
                          | Some lb \<Rightarrow>
                              (let ls = (if action = JStr ''add''
                                         then (if l \<in> set (labels e) then labels e
                                               else labels e @ [l])
                                         else filter (\<lambda>i. i \<noteq> l) (labels e))
                               in if fault ev Email_update then (Inl DbError, w)
                                  else (Inr (Ok_message ''Label updated successfully''),
                                        w\<lparr>emails :=
                                            (case updateOne (\<lambda>x. email_id x = email_id e)
                                                    (\<lambda>x. e\<lparr>labels := ls\<rparr>) (emails w) of
                                               None \<Rightarrow> emails w
                                             | Some es \<Rightarrow> es)\<rparr>))))
      | _ \<Rightarrow> (Inr (Error_json 400 ''Invalid email or label ID''), w))"

definition email_labels ::
  "env \<Rightarrow> token \<Rightarrow> idparam \<Rightarrow> idparam \<Rightarrow> jsval \<Rightarrow> world \<Rightarrow> response \<times> world"
where
  "email_labels ev t emailId labelId action =
     guarded ev t (\<lambda>u me. catch500 ''Update email labels error''
                            (email_labels_try ev u me emailId labelId action))"

text \<open>\<open>DELETE /labels/:labelId\<close>\<close>

definition delete_label_try :: "env \<Rightarrow> user \<Rightarrow> idparam \<Rightarrow> response act" where
  "delete_label_try ev u labelId w =
     (case labelId of
        BadId \<Rightarrow> (Inr (Error_json 400 ''Invalid label ID''), w)
      | Id l \<Rightarrow>
          if fault ev Label_findOne then (Inl DbError, w)
          else (case find (\<lambda>lb. label_id lb = l \<and> userId lb = user_id u) (labelsTbl w) of
                  None \<Rightarrow> (Inr (Error_json 404 ''Label not found or unauthorized''), w)
                | Some lb \<Rightarrow>
                    if isSystemLabel lb
                    then (Inr (Error_json 400 ''Cannot delete system label''), w)
                    else if fault ev Label_deleteOne then (Inl DbError, w)
                    else (case deleteOne (\<lambda>lb. label_id lb = l \<and> userId lb = user_id u)
                                 (labelsTbl w) of
                            None \<Rightarrow> (Inr (Error_json 404 ''Label not found or unauthorized''), w)
                          | Some lbs \<Rightarrow>
                              if fault ev Email_updateMany
                              then (Inl DbError, w\<lparr>labelsTbl := lbs\<rparr>)
                              else (Inr (Ok_message ''Label deleted successfully''),
                                    w\<lparr>labelsTbl := lbs,
                                      emails := map (\<lambda>e. e\<lparr>labels := filter (\<lambda>i. i \<noteq> l)
                                                                       (labels e)\<rparr>)
                                                  (emails w)\<rparr>))))"

definition delete_label :: "env \<Rightarrow> token \<Rightarrow> idparam \<Rightarrow> world \<Rightarrow> response \<times> world" where
  "delete_label ev t labelId =
     guarded ev t (\<lambda>u me. catch500 ''Delete label error'' (delete_label_try ev u labelId))"

text \<open>\<open>GET /emails/:emailId\<close>\<close>

definition get_email_try :: "env \<Rightarrow> string \<Rightarrow> idparam \<Rightarrow> response act" where
  "get_email_try ev me emailId w =
     (case emailId of
        BadId \<Rightarrow> (Inr (Error_json 400 ''Invalid email ID''), w)
      | Id n \<Rightarrow>
          if fault ev Email_findOne then (Inl DbError, w)
          else (case find (\<lambda>e. email_id e = n \<and> participant me e) (emails w) of
                  None \<Rightarrow> (Inr (Error_json 404 ''Email not found or unauthorized''), w)
                | Some e \<Rightarrow> (Inr (Ok_email e), w)))"

definition get_email :: "env \<Rightarrow> token \<Rightarrow> idparam \<Rightarrow> world \<Rightarrow> response \<times> world" where
  "get_email ev t emailId =
     guarded ev t (\<lambda>u me. catch500 ''Get email error'' (get_email_try ev me emailId))"

text \<open>\<open>DELETE /:emailId\<close>\<close>

definition delete_email_try :: "env \<Rightarrow> string \<Rightarrow> idparam \<Rightarrow> response act" where
  "delete_email_try ev userEmail emailId w =
     (case emailId of
        BadId \<Rightarrow> (Inr (Error_json 400 ''Invalid email ID''), w)
      | Id n \<Rightarrow>
          if fault ev Email_deleteOne then (Inl DbError, w)
          else (case deleteOne (\<lambda>e. email_id e = n \<and> participant userEmail e) (emails w) of
                  None \<Rightarrow>
                    (Inr (Error_json 404
                            ''Email not found or you are not authorized to delete it''), w)
                | Some es \<Rightarrow>
                    (Inr (Ok_message ''Email permanently deleted''), w\<lparr>emails := es\<rparr>)))"

definition delete_email :: "env \<Rightarrow> token \<Rightarrow> idparam \<Rightarrow> world \<Rightarrow> response \<times> world" where
  "delete_email ev t emailId =
     guarded ev t (\<lambda>u me. catch500 ''Delete email error'' (delete_email_try ev me emailId))"

section \<open>Sequences of requests\<close>

datatype request =
    Send token send_request
  | Reply token reply_request
  | Forward token forward_request
  | MarkRead token idparam jsval
  | Star token idparam jsval
  | MoveToTrash token idparam
  | EmailLabels token idparam idparam jsval

fun handle :: "env \<Rightarrow> request \<Rightarrow> world \<Rightarrow> response \<times> world" where
  "handle ev (Send t req) w = send ev t req w"
| "handle ev (Reply t req) w = reply ev t req w"
| "handle ev (Forward t req) w = forward ev t req w"
| "handle ev (MarkRead t i v) w = mark_read ev t i v w"
| "handle ev (Star t i v) w = star ev t i v w"
| "handle ev (MoveToTrash t i) w = move_to_trash ev t i w"
| "handle ev (EmailLabels t i l a) w = email_labels ev t i l a w"

text \<open>The world after a sequence of requests, each with its own collaborators.\<close>

fun run :: "(env \<times> request) list \<Rightarrow> world \<Rightarrow> world" where
  "run [] w = w"
| "run ((ev, r) # rs) w = run rs (snd (handle ev r w))"

section \<open>The decision policy in the specification's words\<close>

text \<open>A text contains a keyword case-insensitively when some contiguous part of it equals
  the keyword up to letter case.\<close>

definition containsIgnoreCase :: "string \<Rightarrow> string \<Rightarrow> bool" where
  "containsIgnoreCase txt k = (\<exists>p t q. txt = p @ t @ q \<and> toLowerCase t = toLowerCase k)"

definition rule_keyword :: "string \<Rightarrow> string \<Rightarrow> bool" where
  "rule_keyword subj bod =
     (\<exists>k \<in> set spamKeywords. containsIgnoreCase subj k \<or> containsIgnoreCase bod k)"

text \<open>The occurrences of a link are the successive matches of the link pattern in the body,
  letter case ignored; two occurrences of one and the same address are two occurrences.\<close>

definition rule_links :: "string \<Rightarrow> bool" where
  "rule_links bod = (5 < length (match_urlRegex (toLowerCase bod)))"

text \<open>The same notion without reference to the matcher. A link character is any character
  but white space, the angle brackets and the two quotes. A link text is \<open>http://\<close> or
  \<open>https://\<close> followed by at least one link character and by link characters only. A link
  occurs at the start of a text when the text begins with a link text that no further link
  character follows. The occurrences of links in a text are found from left to right, each
  search starting where the last link ended.\<close>

definition linkChar :: "char \<Rightarrow> bool" where
  "linkChar c =
     (c \<notin> {CHR 0x09, CHR 0x0A, CHR 0x0B, CHR 0x0C, CHR 0x0D, CHR '' '', CHR 0xA0,
            CHR ''<'', CHR ''>'', CHR 0x22, CHR 0x27})"

definition linkText :: "string \<Rightarrow> bool" where
  "linkText u =
     (\<exists>t. (u = ''http://'' @ t \<or> u = ''https://'' @ t) \<and> t \<noteq> [] \<and> (\<forall>c \<in> set t. linkChar c))"

definition linkAt :: "string \<Rightarrow> string \<Rightarrow> string \<Rightarrow> bool" where
  "linkAt s u r = (s = u @ r \<and> linkText u \<and> (\<forall>c r'. r = c # r' \<longrightarrow> \<not> linkChar c))"

inductive occurrences :: "string \<Rightarrow> string list \<Rightarrow> bool" where
  no_text: "occurrences [] []"
| link_here: "linkAt s u r \<Longrightarrow> occurrences r us \<Longrightarrow> occurrences s (u # us)"
| no_link_here:
    "\<forall>u r. \<not> linkAt (c # cs) u r \<Longrightarrow> occurrences cs us \<Longrightarrow> occurrences (c # cs) us"

text \<open>More than five link occurrences in the body, letter case ignored; and the same with
  only the different link texts counted.\<close>

definition rule_many_links :: "string \<Rightarrow> bool" where
  "rule_many_links bod = (\<exists>us. occurrences (toLowerCase bod) us \<and> 5 < length us)"

definition rule_many_distinct_links :: "string \<Rightarrow> bool" where
  "rule_many_distinct_links bod = (\<exists>us. occurrences (toLowerCase bod) us \<and> 5 < card (set us))"

definition rule_sender :: "user list \<Rightarrow> string \<Rightarrow> bool" where
  "rule_sender us sndr = (\<not> (\<exists>u \<in> set us. user_email u = Some sndr \<and> isEmailVerified u))"

definition rule_recipients :: "string list \<Rightarrow> bool" where
  "rule_recipients rs = (10 < length rs)"

text \<open>The extension of a file name is what follows its last dot (the whole name when it
  has no dot).\<close>

definition extension :: "string \<Rightarrow> string" where
  "extension f = rev (takeWhile (\<lambda>c. c \<noteq> CHR ''.'') (rev f))"

definition rule_attachment :: "attachment list \<Rightarrow> bool" where
  "rule_attachment as =
     (\<exists>a \<in> set as.
        (\<exists>n. size_att a = Some n \<and> 5 * 1024 * 1024 < n) \<or>
        (\<exists>f. filename a = Some f \<and>
             toLowerCase (extension f) \<notin> {''jpg'', ''jpeg'', ''png'', ''pdf''}))"

section \<open>Auxiliary notions for the statements\<close>

text \<open>The caller passes both middlewares as user \<open>u\<close> with address \<open>me\<close>.\<close>

definition authenticated :: "env \<Rightarrow> token \<Rightarrow> world \<Rightarrow> user \<Rightarrow> string \<Rightarrow> bool" where
  "authenticated ev t w u me =
     (authenticateToken ev t w = (Inr u, w) \<and> ensureEmailVerified u = Inr me)"

text \<open>The list that the validation error of \<open>/send\<close> names: the first of To, CC and BCC
  that holds an address of no verified user.\<close>

definition unverified_message :: "user list \<Rightarrow> string list \<Rightarrow> string list \<Rightarrow> string" where
  "unverified_message us rs ccs =
     (if \<exists>a \<in> set rs. rule_sender us a then ''Some recipients not found or unverified''
      else if \<exists>a \<in> set ccs. rule_sender us a then ''Some CC recipients not found or unverified''
      else ''Some BCC recipients not found or unverified'')"

text \<open>A step that returns from every world, with a result that satisfies \<open>Q\<close>.\<close>

definition returns :: "('a \<Rightarrow> bool) \<Rightarrow> 'a act \<Rightarrow> bool" where
  "returns Q m = (\<forall>w. \<exists>x w'. m w = (Inr x, w') \<and> Q x)"

text \<open>The fan-out of \<open>/send\<close> as a list of documents. \<open>content\<close> is a stored message
  without its object id and its labels. \<open>sentCopy\<close> is the sender's copy, \<open>inboxCopy\<close> the
  copy of one address, \<open>autoReplyDocs\<close> the two documents of an auto-reply of a To
  recipient (none when the verdict is spam, when the recipient has no settings, or when
  they are not enabled), and \<open>fanOut\<close> lists what follows the sender's copy.\<close>

definition content :: "email \<Rightarrow> email" where
  "content e = e\<lparr>email_id := 0, labels := []\<rparr>"

definition sentCopy ::
  "env \<Rightarrow> string \<Rightarrow> string list \<Rightarrow> string list \<Rightarrow> string list \<Rightarrow> string \<Rightarrow> string
     \<Rightarrow> attachment list \<Rightarrow> email"
where
  "sentCopy ev me rs ccs bccs subj bod atts =
     (new_Email ev)
       \<lparr>sender := me, recipients := rs, cc := ccs, bcc := bccs, subject := subj, body := bod,
        attachments := atts, folder := Sent\<rparr>"

definition inboxCopy :: "env \<Rightarrow> email \<Rightarrow> bool \<Rightarrow> string \<Rightarrow> email" where
  "inboxCopy ev sentEmail spam a =
     (new_Email ev)
       \<lparr>sender := sender sentEmail, recipients := [a], cc := cc sentEmail,
        bcc := bcc sentEmail, subject := subject sentEmail, body := body sentEmail,
        attachments := attachments sentEmail, folder := (if spam then Spam else Inbox),
        isSpam := spam, sentAt := sentAt sentEmail\<rparr>"

definition autoReplyDoc :: "env \<Rightarrow> email \<Rightarrow> string \<Rightarrow> autoReply \<Rightarrow> folder \<Rightarrow> email" where
  "autoReplyDoc ev sentEmail a cfg fld =
     (new_Email ev)
       \<lparr>sender := a, recipients := [sender sentEmail],
        subject := ''Auto Reply: '' @ subject sentEmail, body := message cfg, folder := fld\<rparr>"

text \<open>The settings under which an auto-reply goes out in the name of address \<open>a\<close>: those
  of the first user found for \<open>a\<close>, when they are enabled and the user is verified.\<close>

definition autoReplyOf :: "user list \<Rightarrow> autoReply list \<Rightarrow> string \<Rightarrow> autoReply option" where
  "autoReplyOf us ars a =
     (case find (\<lambda>u. user_email u = Some a) us of
        None \<Rightarrow> None
      | Some u \<Rightarrow>
          (case find (\<lambda>c. ar_userId c = user_id u) ars of
             None \<Rightarrow> None
           | Some cfg \<Rightarrow> if enabled cfg \<and> isEmailVerified u then Some cfg else None))"

definition autoReplyDocs ::
  "env \<Rightarrow> user list \<Rightarrow> autoReply list \<Rightarrow> email \<Rightarrow> bool \<Rightarrow> string \<Rightarrow> email list"
where
  "autoReplyDocs ev us ars sentEmail spam a =
     (if spam then []
      else (case autoReplyOf us ars a of
              None \<Rightarrow> []
            | Some cfg \<Rightarrow> [autoReplyDoc ev sentEmail a cfg Sent,
                           autoReplyDoc ev sentEmail a cfg Inbox]))"

definition fanOut ::
  "env \<Rightarrow> user list \<Rightarrow> autoReply list \<Rightarrow> email \<Rightarrow> bool \<Rightarrow> string list \<Rightarrow> string list
     \<Rightarrow> string list \<Rightarrow> email list"
where
  "fanOut ev us ars sentEmail spam rs ccs bccs =
     concat (map (\<lambda>a. inboxCopy ev sentEmail spam a # autoReplyDocs ev us ars sentEmail spam a)
               rs) @
     map (inboxCopy ev sentEmail spam) ccs @ map (inboxCopy ev sentEmail spam) bccs"

text \<open>The verdict on a message of \<open>/send\<close>.\<close>

definition verdictOf ::
  "env \<Rightarrow> user list \<Rightarrow> string \<Rightarrow> string list \<Rightarrow> string \<Rightarrow> string \<Rightarrow> attachment list \<Rightarrow> bool"
where
  "verdictOf ev us me rs subj bod atts =
     (detectSpam_try ev us
        \<lparr>m_subject = Some subj, m_body = Some bod, m_recipients = Some rs,
         m_attachments = Some atts\<rparr> me = Inr True)"

text \<open>The lists a \<open>/send\<close> request names, after parsing and filtering.\<close>

definition parsed :: "env \<Rightarrow> jsval \<Rightarrow> jsval" where
  "parsed ev v = (case parse_if_string ev v of None \<Rightarrow> JUndefined | Some x \<Rightarrow> x)"

definition To_of :: "env \<Rightarrow> send_request \<Rightarrow> string list" where
  "To_of ev req = validStrings (elements (parsed ev (s_recipients req)))"

definition Cc_of :: "env \<Rightarrow> send_request \<Rightarrow> string list" where
  "Cc_of ev req = filterOptional (parsed ev (s_cc req))"

definition Bcc_of :: "env \<Rightarrow> send_request \<Rightarrow> string list" where
  "Bcc_of ev req = filterOptional (parsed ev (s_bcc req))"

text \<open>From world \<open>w\<close> to world \<open>w'\<close> the messages \<open>new\<close> were appended, and users,
  auto-reply settings and the ghost counter stayed.\<close>

definition grows :: "world \<Rightarrow> world \<Rightarrow> email list \<Rightarrow> bool" where
  "grows w w' new =
     (users w' = users w \<and> autoReplies w' = autoReplies w \<and> spam_calls w' = spam_calls w \<and>
      emails w' = emails w @ new)"

text \<open>Among the messages \<open>new\<close> there is, for each of the addresses, a copy that the
  store accepted.\<close>

definition copiesFor :: "env \<Rightarrow> email \<Rightarrow> bool \<Rightarrow> string list \<Rightarrow> email list \<Rightarrow> bool" where
  "copiesFor ev sentEmail spam as new =
     (\<forall>a \<in> set as. \<exists>c \<in> set new. content c = inboxCopy ev sentEmail spam a \<and>
         \<not> fault ev (Email_save (c\<lparr>email_id := 0\<rparr>)))"

text \<open>The sender's copy of a reply and of a forwarded message, and the copy one
  recipient of a forwarded message gets.\<close>

definition replyDoc :: "env \<Rightarrow> string \<Rightarrow> email \<Rightarrow> reply_request \<Rightarrow> email" where
  "replyDoc ev me originalEmail req =
     (new_Email ev)
       \<lparr>sender := me, recipients := [sender originalEmail],
        subject := ''Re: '' @ subject originalEmail,
        body := templ (r_body req) @ ''<br><br>--- Original Message ---<br>'' @
                body originalEmail,
        attachments := map attachmentOf (r_files req), folder := Sent\<rparr>"

definition forwardDoc :: "env \<Rightarrow> string \<Rightarrow> email \<Rightarrow> forward_request \<Rightarrow> string list \<Rightarrow> email" where
  "forwardDoc ev me originalEmail req rs =
     (new_Email ev)
       \<lparr>sender := me, recipients := rs,
        subject := ''Fwd: '' @ subject originalEmail,
        body := (if truthy (f_body req) then templ (f_body req) else []) @
                ''<br><br>--- Forwarded Message ---<br>'' @ body originalEmail,
        attachments := attachments originalEmail @ map attachmentOf (f_files req),
        folder := Sent\<rparr>"

definition receivedCopy :: "email \<Rightarrow> bool \<Rightarrow> string \<Rightarrow> email" where
  "receivedCopy sentEmail spam a =
     sentEmail\<lparr>recipients := [a], folder := (if spam then Spam else Inbox), isSpam := spam\<rparr>"

text \<open>A message with one label detached and nothing else changed.\<close>

definition detach :: "nat \<Rightarrow> email \<Rightarrow> email" where
  "detach l e = e\<lparr>labels := removeAll l (labels e)\<rparr>"

section \<open>Example data\<close>

text \<open>Collaborators without faults, three verified users and an empty store.\<close>

definition ev_ok :: env where
  "ev_ok = \<lparr>fault = (\<lambda>_. False), io = True, emit_fault = (\<lambda>_. False), now = 7,
            JSON_parse = (\<lambda>_. None)\<rparr>"

definition user_s :: user where
  "user_s = \<lparr>user_id = 1, user_email = Some ''s@x.com'', isEmailVerified = True\<rparr>"

definition user_a :: user where
  "user_a = \<lparr>user_id = 2, user_email = Some ''a@x.com'', isEmailVerified = True\<rparr>"

definition user_b :: user where
  "user_b = \<lparr>user_id = 3, user_email = Some ''b@x.com'', isEmailVerified = True\<rparr>"

definition world0 :: world where
  "world0 = \<lparr>users = [user_s, user_a, user_b], emails = [], labelsTbl = [], autoReplies = [],
             next_id = 100, emitted = [], console = [], spam_calls = 0\<rparr>"

text \<open>A message whose only offence is the type of its attachment, and one without a
  subject.\<close>

definition mail_exe :: mail_obj where
  "mail_exe =
     \<lparr>m_subject = Some ''Hello'', m_body = Some ''see you'',
      m_recipients = Some [''a@x.com''],
      m_attachments = Some [\<lparr>url = None, filename = Some ''setup.EXE'', size_att = Some 10\<rparr>]\<rparr>"

text \<open>A request to two known users with a stranger in copy.\<close>

definition req_cc_stranger :: send_request where
  "req_cc_stranger =
     \<lparr>s_recipients = JArr [JStr ''a@x.com'', JStr ''b@x.com''],
      s_cc = JArr [JStr ''z@x.com''], s_bcc = JUndefined,
      s_subject = JStr ''Hello'', s_body = JStr ''see you'', s_files = []\<rparr>"

text \<open>A store in which user a owns a label of her own and the system label, both attached
  to a message she received from user s.\<close>

definition world_labels :: world where
  "world_labels =
     world0\<lparr>labelsTbl := [\<lparr>label_id = 50, userId = 2, name = ''Work'', isSystemLabel = False\<rparr>,
                          \<lparr>label_id = 51, userId = 2, name = ''Spam'', isSystemLabel = True\<rparr>],
            emails := [(new_Email ev_ok)
                         \<lparr>email_id := 60, sender := ''s@x.com'', recipients := [''a@x.com''],
                          subject := ''Hello'', body := ''urgent'', folder := Spam,
                          isSpam := True, labels := [51, 50]\<rparr>]\<rparr>"

text \<open>Two plain requests of user s to users a and b, the second with a keyword of the
  list in its body.\<close>

definition req_hello :: send_request where
  "req_hello =
     \<lparr>s_recipients = JArr [JStr ''a@x.com'', JStr ''b@x.com''],
      s_cc = JUndefined, s_bcc = JUndefined,
      s_subject = JStr ''Hello'', s_body = JStr ''see you'', s_files = []\<rparr>"

definition req_offer :: send_request where
  "req_offer = req_hello\<lparr>s_body := JStr ''a limited time offer''\<rparr>"


text \<open>A store holding one message from user a to user b; user s has no part in it.\<close>

definition world_ab :: world where
  "world_ab =
     world0\<lparr>emails := [(new_Email ev_ok)
                         \<lparr>email_id := 60, sender := ''a@x.com'', recipients := [''b@x.com''],
                          subject := ''Plan'', body := ''as agreed''\<rparr>]\<rparr>"


text \<open>A message whose body is one and the same link, written six times.\<close>

definition six_links :: string where
  "six_links = ''http://a http://a http://a http://a http://a http://a''"

definition mail_six_links :: mail_obj where
  "mail_six_links =
     \<lparr>m_subject = Some ''Hello'', m_body = Some six_links,
      m_recipients = Some [''a@x.com''], m_attachments = Some []\<rparr>"

definition mail_no_subject :: mail_obj where
  "mail_no_subject =
     \<lparr>m_subject = None, m_body = Some ''urgent'', m_recipients = Some [''a@x.com''],
      m_attachments = None\<rparr>"

section \<open>Properties of the string functions\<close>

lemma startsWith_prefix: "startsWith s k \<longleftrightarrow> prefix k s"
  by (induction s k rule: startsWith.induct) auto

lemma includes_str_sublist: "includes_str s k \<longleftrightarrow> sublist k s"
  by (induction s) (auto simp: startsWith_prefix sublist_Cons_right)

lemma toLowerCase_append: "toLowerCase (p @ q) = toLowerCase p @ toLowerCase q"
  by (simp add: toLowerCase_def)

lemma map_eq_append3:
  "map f xs = p @ k @ q \<Longrightarrow> \<exists>p' t q'. xs = p' @ t @ q' \<and> map f t = k"
  by (metis append_eq_map_conv)

lemma includes_lower_iff:
  assumes "toLowerCase k = k"
  shows "includes_str (toLowerCase txt) k \<longleftrightarrow> containsIgnoreCase txt k"
proof
  assume "includes_str (toLowerCase txt) k"
  then have "sublist k (map toLowerCase_char txt)"
    by (simp only: includes_str_sublist toLowerCase_def)
  then obtain p q where pq: "map toLowerCase_char txt = p @ k @ q"
    unfolding sublist_def by blast
  obtain p' t q' where "txt = p' @ t @ q'" and "map toLowerCase_char t = k"
    using map_eq_append3[OF pq] by blast
  then have "txt = p' @ t @ q' \<and> toLowerCase t = toLowerCase k"
    using assms by (simp add: toLowerCase_def)
  then show "containsIgnoreCase txt k"
    unfolding containsIgnoreCase_def by blast
next
  assume "containsIgnoreCase txt k"
  then obtain p t q where "txt = p @ t @ q" and "toLowerCase t = toLowerCase k"
    unfolding containsIgnoreCase_def by blast
  then have "toLowerCase txt = toLowerCase p @ k @ toLowerCase q"
    using assms by (simp add: toLowerCase_append)
  then have "sublist k (toLowerCase txt)"
    unfolding sublist_def by blast
  then show "includes_str (toLowerCase txt) k"
    by (simp only: includes_str_sublist)
qed

lemma spamKeywords_all_lower: "list_all (\<lambda>k. toLowerCase k = k) spamKeywords"
  by code_simp

lemma spamKeywords_lower: "k \<in> set spamKeywords \<Longrightarrow> toLowerCase k = k"
  using spamKeywords_all_lower by (simp add: list_all_iff)

lemma split_on_nonempty: "split_on d s \<noteq> []"
  by (induction s) (auto split: list.splits)

lemma split_on_no_sep: "d \<notin> set s \<Longrightarrow> split_on d s = [s]"
  by (induction s) auto

lemma split_on_sep: "d \<in> set s \<Longrightarrow> \<exists>p q qs. split_on d s = p # q # qs"
proof (induction s)
  case Nil
  then show ?case by simp
next
  case (Cons c cs)
  show ?case
  proof (cases "c = d")
    case True
    then show ?thesis using split_on_nonempty[of d cs] by (cases "split_on d cs") auto
  next
    case False
    with Cons show ?thesis by auto
  qed
qed

lemma last_split_on: "last (split_on d s) = rev (takeWhile (\<lambda>c. c \<noteq> d) (rev s))"
proof (induction s)
  case Nil
  then show ?case by simp
next
  case (Cons c cs)
  show ?case
  proof (cases "d \<in> set cs")
    case True
    then obtain p q qs where sp: "split_on d cs = p # q # qs"
      using split_on_sep by blast
    have "last (split_on d (c # cs)) = last (split_on d cs)"
      using sp by auto
    moreover have "takeWhile (\<lambda>c. c \<noteq> d) (rev cs @ [c]) = takeWhile (\<lambda>c. c \<noteq> d) (rev cs)"
      using True by (auto simp: takeWhile_append1)
    ultimately show ?thesis using Cons by simp
  next
    case False
    then have tw: "takeWhile (\<lambda>c. c \<noteq> d) (rev cs @ [c]) = rev cs @ takeWhile (\<lambda>c. c \<noteq> d) [c]"
      by (intro takeWhile_append2) auto
    show ?thesis using False tw by (auto simp: split_on_no_sep)
  qed
qed

lemma pop_last: "ps \<noteq> [] \<Longrightarrow> pop ps = last ps"
  by (cases ps rule: rev_cases) (auto simp: pop_def)

lemma pop_split_extension: "pop (split_on CHR ''.'' f) = extension f"
  by (simp add: pop_last split_on_nonempty last_split_on extension_def)

section \<open>The link pattern finds the link occurrences\<close>

lemma urlChar_linkChar_all: "list_all (\<lambda>c. urlChar c = linkChar c) Enum.enum"
  by code_simp

lemma urlChar_linkChar: "urlChar c = linkChar c"
proof -
  have "c \<in> set Enum.enum"
    by (simp add: enum_UNIV)
  with urlChar_linkChar_all show ?thesis
    unfolding list_all_iff by blast
qed


lemma urlTail_iff:
  "urlTail s = Some (t, r) \<longleftrightarrow>
     s = t @ r \<and> t \<noteq> [] \<and> (\<forall>c \<in> set t. linkChar c) \<and> (\<forall>c r'. r = c # r' \<longrightarrow> \<not> linkChar c)"
proof
  assume a: "urlTail s = Some (t, r)"
  then obtain c cs where s: "s = c # cs" and c: "urlChar c"
    and t: "t = takeWhile urlChar s" and r: "r = dropWhile urlChar s"
    by (auto simp: urlTail_def split: list.splits if_splits)
  have "s = t @ r"
    unfolding t r by simp
  moreover have "t \<noteq> []"
    unfolding t s using c by simp
  moreover have "\<forall>c \<in> set t. linkChar c"
    unfolding t using set_takeWhileD[of _ urlChar s] by (auto simp: urlChar_linkChar)
  moreover have "\<forall>c r'. r = c # r' \<longrightarrow> \<not> linkChar c"
  proof (intro allI impI)
    fix c r' assume "r = c # r'"
    then have "dropWhile urlChar s \<noteq> []" and "hd (dropWhile urlChar s) = c"
      unfolding r by simp_all
    with hd_dropWhile[of urlChar s] show "\<not> linkChar c"
      by (simp add: urlChar_linkChar)
  qed
  ultimately show "s = t @ r \<and> t \<noteq> [] \<and> (\<forall>c \<in> set t. linkChar c) \<and>
      (\<forall>c r'. r = c # r' \<longrightarrow> \<not> linkChar c)"
    by blast
next
  assume a: "s = t @ r \<and> t \<noteq> [] \<and> (\<forall>c \<in> set t. linkChar c) \<and>
      (\<forall>c r'. r = c # r' \<longrightarrow> \<not> linkChar c)"
  then have s: "s = t @ r" and ne: "t \<noteq> []" and all: "\<And>c. c \<in> set t \<Longrightarrow> urlChar c"
    and stop: "\<And>c r'. r = c # r' \<Longrightarrow> \<not> urlChar c"
    by (auto simp: urlChar_linkChar)
  have tr: "takeWhile urlChar r = []" and dr: "dropWhile urlChar r = r"
    using stop by (cases r; simp)+
  have tw: "takeWhile urlChar s = t"
    unfolding s using takeWhile_append2[of t urlChar r] all tr by simp
  have dw: "dropWhile urlChar s = r"
    unfolding s using dropWhile_append2[of t urlChar r] all dr by simp
  obtain c cs where t: "t = c # cs"
    using ne by (cases t) auto
  then have "urlChar c" using all by simp
  then show "urlTail s = Some (t, r)"
    using tw dw s t by (simp add: urlTail_def)
qed

lemma prefix_https: "prefix ''https://'' s \<Longrightarrow> s = ''https://'' @ drop 8 s"
  by (auto simp: prefix_def)

lemma prefix_http: "prefix ''http://'' s \<Longrightarrow> s = ''http://'' @ drop 7 s"
  by (auto simp: prefix_def)

lemma urlAt_iff: "urlAt s = Some (u, r) \<longleftrightarrow> linkAt s u r"
proof (cases "prefix ''https://'' s")
  case True
  then have s: "s = ''https://'' @ drop 8 s"
    by (rule prefix_https)
  have "urlAt s = Some (u, r) \<longleftrightarrow> (\<exists>t. u = ''https://'' @ t \<and> urlTail (drop 8 s) = Some (t, r))"
    using True by (auto simp: urlAt_def startsWith_prefix split: option.splits)
  also have "\<dots> \<longleftrightarrow> linkAt s u r"
  proof
    assume "\<exists>t. u = ''https://'' @ t \<and> urlTail (drop 8 s) = Some (t, r)"
    then obtain t where u: "u = ''https://'' @ t" and t: "urlTail (drop 8 s) = Some (t, r)"
      by blast
    from t[unfolded urlTail_iff] s u show "linkAt s u r"
      unfolding linkAt_def linkText_def by (metis append.assoc)
  next
    assume l: "linkAt s u r"
    then obtain t where su: "s = u @ r" and u: "u = ''http://'' @ t \<or> u = ''https://'' @ t"
      and t: "t \<noteq> []" "\<forall>c \<in> set t. linkChar c" and stop: "\<forall>c r'. r = c # r' \<longrightarrow> \<not> linkChar c"
      unfolding linkAt_def linkText_def by blast
    have "u \<noteq> ''http://'' @ t"
    proof
      assume "u = ''http://'' @ t"
      with su s have "''https://'' @ drop 8 s = ''http://'' @ t @ r" by simp
      then show False by simp
    qed
    with u have u': "u = ''https://'' @ t" by simp
    with su s have "''https://'' @ drop 8 s = ''https://'' @ t @ r" by simp
    then have "drop 8 s = t @ r" by simp
    with t stop have "urlTail (drop 8 s) = Some (t, r)"
      unfolding urlTail_iff by blast
    with u' show "\<exists>t. u = ''https://'' @ t \<and> urlTail (drop 8 s) = Some (t, r)"
      by blast
  qed
  finally show ?thesis .
next
  case nos: False
  show ?thesis
  proof (cases "prefix ''http://'' s")
    case True
    then have s: "s = ''http://'' @ drop 7 s"
      by (rule prefix_http)
    have "urlAt s = Some (u, r) \<longleftrightarrow> (\<exists>t. u = ''http://'' @ t \<and> urlTail (drop 7 s) = Some (t, r))"
      using True nos by (auto simp: urlAt_def startsWith_prefix split: option.splits)
    also have "\<dots> \<longleftrightarrow> linkAt s u r"
    proof
      assume "\<exists>t. u = ''http://'' @ t \<and> urlTail (drop 7 s) = Some (t, r)"
      then obtain t where u: "u = ''http://'' @ t" and t: "urlTail (drop 7 s) = Some (t, r)"
        by blast
      from t[unfolded urlTail_iff] s u show "linkAt s u r"
        unfolding linkAt_def linkText_def by (metis append.assoc)
    next
      assume l: "linkAt s u r"
      then obtain t where su: "s = u @ r" and u: "u = ''http://'' @ t \<or> u = ''https://'' @ t"
        and t: "t \<noteq> []" "\<forall>c \<in> set t. linkChar c" and stop: "\<forall>c r'. r = c # r' \<longrightarrow> \<not> linkChar c"
        unfolding linkAt_def linkText_def by blast
      have "u \<noteq> ''https://'' @ t"
      proof
        assume "u = ''https://'' @ t"
        with su have "prefix ''https://'' s" by (simp add: prefix_def)
        with nos show False by simp
      qed
      with u have u': "u = ''http://'' @ t" by simp
      with su s have "''http://'' @ drop 7 s = ''http://'' @ t @ r" by simp
      then have "drop 7 s = t @ r" by simp
      with t stop have "urlTail (drop 7 s) = Some (t, r)"
        unfolding urlTail_iff by blast
      with u' show "\<exists>t. u = ''http://'' @ t \<and> urlTail (drop 7 s) = Some (t, r)"
        by blast
    qed
    finally show ?thesis .
  next
    case False
    have "\<not> linkAt s u r"
    proof
      assume "linkAt s u r"
      then obtain t where "s = u @ r" and "u = ''http://'' @ t \<or> u = ''https://'' @ t"
        unfolding linkAt_def linkText_def by blast
      then have "prefix ''http://'' s \<or> prefix ''https://'' s"
        by (auto simp: prefix_def)
      with False nos show False by simp
    qed
    moreover have "urlAt s = None"
      using False nos by (simp add: urlAt_def startsWith_prefix)
    ultimately show ?thesis by simp
  qed
qed

lemma linkAt_functional: "linkAt s u r \<Longrightarrow> linkAt s u' r' \<Longrightarrow> u' = u \<and> r' = r"
  unfolding urlAt_iff[symmetric] by simp

lemma linkAt_nonempty: "linkAt s u r \<Longrightarrow> s \<noteq> []"
  by (auto simp: linkAt_def linkText_def)

lemma occurrences_match: "occurrences s (match_urlRegex s)"
proof (induction s rule: match_urlRegex.induct)
  case 1
  show ?case by (simp add: occurrences.no_text)
next
  case (2 c cs)
  show ?case
  proof (cases "urlAt (c # cs)")
    case None
    then have "\<forall>u r. \<not> linkAt (c # cs) u r"
      unfolding urlAt_iff[symmetric] by simp
    with None 2(1)[OF None] show ?thesis
      by (simp add: occurrences.no_link_here)
  next
    case (Some p)
    obtain u r where p: "p = (u, r)" by (cases p)
    with Some have "linkAt (c # cs) u r"
      unfolding urlAt_iff[symmetric] by simp
    moreover have "occurrences r (match_urlRegex r)"
      using 2(2)[OF Some p[symmetric]] .
    ultimately show ?thesis
      using Some p by (simp add: occurrences.link_here)
  qed
qed

lemma occurrences_unique: "occurrences s us \<Longrightarrow> us = match_urlRegex s"
proof (induction rule: occurrences.induct)
  case no_text
  show ?case by simp
next
  case (link_here s u r us)
  then obtain c cs where s: "s = c # cs"
    using linkAt_nonempty by (cases s) auto
  from link_here(1) have "urlAt (c # cs) = Some (u, r)"
    unfolding urlAt_iff s by simp
  with link_here(3) show ?case
    unfolding s by simp
next
  case (no_link_here c cs us)
  then have "urlAt (c # cs) = None"
    unfolding urlAt_iff[symmetric] by (cases "urlAt (c # cs)") auto
  with no_link_here(3) show ?case by simp
qed

lemma occurrences_iff: "occurrences s us \<longleftrightarrow> us = match_urlRegex s"
  using occurrences_unique occurrences_match by blast

lemma rule_many_links_iff: "rule_many_links bod \<longleftrightarrow> rule_links bod"
  by (simp add: rule_many_links_def rule_links_def occurrences_iff)

lemma rule_many_distinct_links_iff:
  "rule_many_distinct_links bod \<longleftrightarrow> 5 < card (set (match_urlRegex (toLowerCase bod)))"
  by (simp add: rule_many_distinct_links_def occurrences_iff)

section \<open>Properties of spam detection\<close>

lemma hasSpamKeyword_iff:
  "hasSpamKeyword (toLowerCase s) (toLowerCase b) \<longleftrightarrow> rule_keyword s b"
proof -
  have "includes_str (toLowerCase t) k \<longleftrightarrow> containsIgnoreCase t k"
    if "k \<in> set spamKeywords" for t k
    using that by (intro includes_lower_iff spamKeywords_lower)
  then show ?thesis
    unfolding hasSpamKeyword_def rule_keyword_def list_ex_iff by blast
qed

lemma findVerified_None_iff: "findVerified us e = None \<longleftrightarrow> rule_sender us e"
  by (auto simp: findVerified_def rule_sender_def find_None_iff)

lemma suspicious_named:
  "filename a = Some f \<Longrightarrow>
   suspicious a =
     Inr ((\<exists>n. size_att a = Some n \<and> 5 * 1024 * 1024 < n) \<or>
          toLowerCase (extension f) \<notin> {''jpg'', ''jpeg'', ''png'', ''pdf''})"
  by (auto simp: suspicious_def pop_split_extension allowedExt_def split: option.splits)

lemma some_suspicious_named:
  "\<forall>a \<in> set as. filename a \<noteq> None \<Longrightarrow> some_suspicious as = Inr (rule_attachment as)"
proof (induction as)
  case Nil
  then show ?case by (simp add: rule_attachment_def)
next
  case (Cons a as)
  then obtain f where f: "filename a = Some f" by auto
  have rest: "some_suspicious as = Inr (rule_attachment as)"
    using Cons by simp
  show ?case
    using suspicious_named[OF f] rest f
    by (auto simp: rule_attachment_def split: bool.splits)
qed

lemma rule_attachment_Nil: "\<not> rule_attachment []"
  by (simp add: rule_attachment_def)

lemma detectSpam_try_present:
  assumes "m_subject m = Some s" and "m_body m = Some b"
  shows "detectSpam_try ev us m sndr =
     (if rule_keyword s b \<or> rule_links b then Inr True
      else if fault ev (User_findOne sndr) then Inl DbError
      else if rule_sender us sndr then Inr True
      else (case m_recipients m of
              None \<Rightarrow> Inl TypeError
            | Some rs \<Rightarrow>
                if rule_recipients rs then Inr True
                else (case m_attachments m of
                        None \<Rightarrow> Inr False
                      | Some as \<Rightarrow> some_suspicious as)))"
proof -
  have tidy: "(case some_suspicious as of Inl e \<Rightarrow> Inl e | Inr True \<Rightarrow> Inr True
                | Inr False \<Rightarrow> Inr False) = some_suspicious as" for as
    by (simp split: sum.splits bool.splits)
  have empty: "(if 0 < length as then some_suspicious as else Inr False) = some_suspicious as"
    for as by (cases as) simp_all
  show ?thesis
    unfolding detectSpam_try_def tidy empty rule_recipients_def rule_links_def
    by (simp add: assms hasSpamKeyword_iff findVerified_None_iff)
qed

lemma fst_detectSpam:
  "fst (detectSpam ev m sndr w) = (detectSpam_try ev (users w) m sndr = Inr True)"
  by (simp add: detectSpam_def split: sum.splits)

lemma detectSpam_try_absent:
  "m_subject m = None \<Longrightarrow> detectSpam_try ev us m sndr = Inl TypeError"
  "m_subject m = Some s \<Longrightarrow> m_body m = None \<Longrightarrow> detectSpam_try ev us m sndr = Inl TypeError"
  by (simp_all add: detectSpam_try_def)

lemma extension_setup_EXE: "toLowerCase (extension ''setup.EXE'') = ''exe''"
  by code_simp

lemma six_links_matches:
  "match_urlRegex (toLowerCase six_links) =
     [''http://a'', ''http://a'', ''http://a'', ''http://a'', ''http://a'', ''http://a'']"
  by code_simp

lemma six_links_no_keyword: "\<not> hasSpamKeyword (toLowerCase ''Hello'') (toLowerCase six_links)"
  by code_simp

lemma six_links_verdict: "fst (detectSpam ev_ok mail_six_links ''s@x.com'' world0)"
  by code_simp

text \<open>
  \<^bold>\<open>C1, as stated, fails.\<close> The body of \<open>mail_six_links\<close> holds one link, six times.
  None of the five rules of the claim holds for it: no keyword, one distinct link, a
  verified sender, one recipient, no attachment. Yet \<open>detectSpam\<close> answers true, because
  it counts the six occurrences.
\<close>

theorem detectSpam_distinct_links_counterexample:
  "fst (detectSpam ev_ok mail_six_links ''s@x.com'' world0) \<and>
   \<not> (rule_keyword ''Hello'' six_links \<or> rule_many_distinct_links six_links \<or>
      rule_sender (users world0) ''s@x.com'' \<or> rule_recipients [''a@x.com''] \<or>
      rule_attachment [])"
proof -
  have k: "\<not> rule_keyword ''Hello'' six_links"
    using six_links_no_keyword unfolding hasSpamKeyword_iff .
  have "card (set (match_urlRegex (toLowerCase six_links))) = 1"
    unfolding six_links_matches by simp
  then have l: "\<not> rule_many_distinct_links six_links"
    unfolding rule_many_distinct_links_iff by simp
  have s: "\<not> rule_sender (users world0) ''s@x.com''"
    by (simp add: rule_sender_def world0_def user_s_def)
  have r: "\<not> rule_recipients [''a@x.com'']"
    by (simp add: rule_recipients_def)
  from six_links_verdict k l s r rule_attachment_Nil show ?thesis
    by blast
qed

text \<open>
  \<^bold>\<open>C1, amended.\<close> \<open>detectSpam(message, sender)\<close> answers true exactly when one of the
  five rules holds: a keyword of the fixed list occurs in the subject or the body, letter
  case ignored; the body has more than five link occurrences, each occurrence counted,
  also when the same link is repeated; the sender is no verified user of the directory;
  there are more than ten To recipients; some attachment is larger than 5 MiB or has an
  extension other than jpg, jpeg, png, pdf, letter case ignored. The rules are tried in
  this order and the first that holds decides: the first two need only the subject and the
  body, the third only the directory lookup, the fourth only the To list.
\<close>

theorem detectSpam_decision:
  assumes "m_subject m = Some s" and "m_body m = Some b"
  shows "(rule_keyword s b \<or> rule_many_links b \<longrightarrow> fst (detectSpam ev m sndr w)) \<and>
         (\<not> fault ev (User_findOne sndr) \<and> rule_sender (users w) sndr
            \<longrightarrow> fst (detectSpam ev m sndr w)) \<and>
         (\<not> fault ev (User_findOne sndr) \<and> m_recipients m = Some rs \<and> rule_recipients rs
            \<longrightarrow> fst (detectSpam ev m sndr w)) \<and>
         (\<not> fault ev (User_findOne sndr) \<and> m_recipients m = Some rs \<and>
          m_attachments m = Some as \<and> (\<forall>a \<in> set as. filename a \<noteq> None)
            \<longrightarrow> fst (detectSpam ev m sndr w) =
                 (rule_keyword s b \<or> rule_many_links b \<or> rule_sender (users w) sndr \<or>
                  rule_recipients rs \<or> rule_attachment as))"
proof -
  note tr = detectSpam_try_present[OF assms, of ev "users w" sndr]
  have early: "rule_keyword s b \<or> rule_many_links b \<longrightarrow> fst (detectSpam ev m sndr w)"
    by (simp add: fst_detectSpam tr rule_many_links_iff)
  have third: "\<not> fault ev (User_findOne sndr) \<and> rule_sender (users w) sndr
      \<longrightarrow> fst (detectSpam ev m sndr w)"
    by (simp add: fst_detectSpam tr)
  have fourth: "\<not> fault ev (User_findOne sndr) \<and> m_recipients m = Some rs \<and> rule_recipients rs
      \<longrightarrow> fst (detectSpam ev m sndr w)"
    by (simp add: fst_detectSpam tr)
  have whole: "\<not> fault ev (User_findOne sndr) \<and> m_recipients m = Some rs \<and>
      m_attachments m = Some as \<and> (\<forall>a \<in> set as. filename a \<noteq> None)
      \<longrightarrow> fst (detectSpam ev m sndr w) =
          (rule_keyword s b \<or> rule_many_links b \<or> rule_sender (users w) sndr \<or>
           rule_recipients rs \<or> rule_attachment as)"
    by (auto simp: fst_detectSpam tr some_suspicious_named rule_recipients_def
        rule_many_links_iff)
  from early third fourth whole show ?thesis by blast
qed

theorem detectSpam_decision_witness:
  "fst (detectSpam ev_ok mail_six_links ''s@x.com'' world0) \<and>
   fst (detectSpam ev_ok mail_exe ''s@x.com'' world0)"
proof -
  have links: "rule_many_links six_links"
    unfolding rule_many_links_iff rule_links_def six_links_matches by simp
  have "m_subject mail_six_links = Some ''Hello''" and "m_body mail_six_links = Some six_links"
    by (simp_all add: mail_six_links_def)
  from detectSpam_decision[OF this, where ev = ev_ok and sndr = "''s@x.com''" and w = world0]
    links
  have first: "fst (detectSpam ev_ok mail_six_links ''s@x.com'' world0)"
    by blast
  have att: "rule_attachment [\<lparr>url = None, filename = Some ''setup.EXE'', size_att = Some 10\<rparr>]"
    by (simp add: rule_attachment_def extension_setup_EXE)
  have "m_subject mail_exe = Some ''Hello''" and "m_body mail_exe = Some ''see you''"
    by (simp_all add: mail_exe_def)
  from detectSpam_decision[OF this, where ev = ev_ok and sndr = "''s@x.com''"
      and rs = "[''a@x.com'']" and w = world0
      and as = "[\<lparr>url = None, filename = Some ''setup.EXE'', size_att = Some 10\<rparr>]"] att
  have second: "fst (detectSpam ev_ok mail_exe ''s@x.com'' world0)"
    by (simp add: ev_ok_def mail_exe_def)
  from first second show ?thesis by blast
qed

text \<open>
  \<^bold>\<open>C8.\<close> Whenever the classification throws, be it for an absent subject or body or
  for a directory lookup that fails once the first two rules have passed, or for any other
  reason, \<open>detectSpam\<close> answers false. In no case does it change the stored messages,
  labels, auto-reply settings or users.
\<close>

theorem detectSpam_fails_open:
  "(detectSpam_try ev (users w) m sndr = Inl e \<longrightarrow> fst (detectSpam ev m sndr w) = False) \<and>
   (m_subject m = None \<or> m_body m = None \<longrightarrow> fst (detectSpam ev m sndr w) = False) \<and>
   (m_subject m = Some s \<and> m_body m = Some b \<and> \<not> rule_keyword s b \<and> \<not> rule_links b \<and>
    fault ev (User_findOne sndr) \<longrightarrow> fst (detectSpam ev m sndr w) = False) \<and>
   emails (snd (detectSpam ev m sndr w)) = emails w \<and>
   labelsTbl (snd (detectSpam ev m sndr w)) = labelsTbl w \<and>
   autoReplies (snd (detectSpam ev m sndr w)) = autoReplies w \<and>
   users (snd (detectSpam ev m sndr w)) = users w \<and>
   next_id (snd (detectSpam ev m sndr w)) = next_id w"
proof -
  have any: "detectSpam_try ev (users w) m sndr = Inl e \<longrightarrow> fst (detectSpam ev m sndr w) = False"
    by (simp add: fst_detectSpam)
  have absent: "m_subject m = None \<or> m_body m = None \<longrightarrow> fst (detectSpam ev m sndr w) = False"
    by (cases "m_subject m") (auto simp: fst_detectSpam detectSpam_try_absent)
  have lookup: "m_subject m = Some s \<and> m_body m = Some b \<and> \<not> rule_keyword s b \<and>
      \<not> rule_links b \<and> fault ev (User_findOne sndr) \<longrightarrow> fst (detectSpam ev m sndr w) = False"
    by (simp add: fst_detectSpam detectSpam_try_present)
  have store: "emails (snd (detectSpam ev m sndr w)) = emails w \<and>
      labelsTbl (snd (detectSpam ev m sndr w)) = labelsTbl w \<and>
      autoReplies (snd (detectSpam ev m sndr w)) = autoReplies w \<and>
      users (snd (detectSpam ev m sndr w)) = users w \<and>
      next_id (snd (detectSpam ev m sndr w)) = next_id w"
    by (simp add: detectSpam_def split: sum.splits)
  from any absent lookup store show ?thesis by blast
qed

theorem detectSpam_fails_open_witness:
  "fst (detectSpam ev_ok mail_no_subject ''s@x.com'' world0) = False \<and>
   emails (snd (detectSpam ev_ok mail_no_subject ''s@x.com'' world0)) = emails world0"
  using detectSpam_fails_open[where ev = ev_ok and w = world0 and m = mail_no_subject
      and sndr = "''s@x.com''"]
  by (simp add: mail_no_subject_def)

section \<open>Running the steps of a handler\<close>

lemma andThen_ret: "andThen (ret x) f w = f x w"
  by (simp add: andThen_def ret_def)

lemma andThen_User_find:
  "andThen (User_find_verified ev allEmails) f w =
     (if fault ev User_find then (Inl DbError, w)
      else f (verifiedAmong (users w) allEmails) w)"
  by (simp add: andThen_def User_find_verified_def)

lemma guarded_authenticated:
  "authenticated ev t w u me \<Longrightarrow> guarded ev t handler w = handler u me w"
  by (simp add: authenticated_def guarded_def)

lemma authenticated_example:
  "authenticated ev_ok (TokenFor 1) (world0\<lparr>emails := es, labelsTbl := ls, autoReplies := ars\<rparr>)
     user_s ''s@x.com''"
  by (simp add: authenticated_def authenticateToken_def ensureEmailVerified_def ev_ok_def
      world0_def user_s_def)

section \<open>Validation of the addresses of /send\<close>

lemma validEmails_has:
  "Some e \<in> set (map user_email (verifiedAmong us allEmails))
     \<longleftrightarrow> e \<in> set allEmails \<and> \<not> rule_sender us e"
  by (auto simp: verifiedAmong_def rule_sender_def image_iff split: option.splits)

lemma every_valid:
  "set xs \<subseteq> set allEmails \<Longrightarrow>
   list_all (\<lambda>e. Some e \<in> set (map user_email (verifiedAmong us allEmails))) xs
     \<longleftrightarrow> (\<forall>e \<in> set xs. \<not> rule_sender us e)"
  unfolding validEmails_has list_all_iff by blast

lemma send_try_rejects:
  assumes nf: "\<not> fault ev User_find"
      and bad: "\<exists>a \<in> set (rs @ ccs @ bccs). rule_sender (users w) a"
  shows "send_try ev me rs ccs bccs subj bod files w =
           (Inr (Error_json 400 (unverified_message (users w) rs ccs)), w)"
proof -
  let ?all = "remdups (rs @ ccs @ bccs)"
  have r: "list_all (\<lambda>e. Some e \<in> set (map user_email (verifiedAmong (users w) ?all))) rs
      \<longleftrightarrow> (\<forall>e \<in> set rs. \<not> rule_sender (users w) e)"
    by (rule every_valid) auto
  have c: "list_all (\<lambda>e. Some e \<in> set (map user_email (verifiedAmong (users w) ?all))) ccs
      \<longleftrightarrow> (\<forall>e \<in> set ccs. \<not> rule_sender (users w) e)"
    by (rule every_valid) auto
  have b: "list_all (\<lambda>e. Some e \<in> set (map user_email (verifiedAmong (users w) ?all))) bccs
      \<longleftrightarrow> (\<forall>e \<in> set bccs. \<not> rule_sender (users w) e)"
    by (rule every_valid) auto
  have ne: "(\<exists>e \<in> set xs. P e) \<Longrightarrow> 0 < length xs" for xs :: "string list" and P
    by (cases xs) auto
  show ?thesis
    unfolding send_try_def andThen_User_find r c b unverified_message_def
    using bad nf ne[of ccs] ne[of bccs] by (auto simp: ret_def)
qed

lemma send_handler_wellformed:
  assumes "parse_if_string ev (s_recipients req) = Some (JArr tov)"
      and "parse_if_string ev (s_cc req) = Some ccv"
      and "parse_if_string ev (s_bcc req) = Some bccv"
      and "s_subject req = JStr subj" and "subj \<noteq> []"
      and "s_body req = JStr bod" and "bod \<noteq> []"
      and "\<not> truthy ccv \<or> isArray ccv" and "\<not> truthy bccv \<or> isArray bccv"
      and "validStrings tov \<noteq> []"
  shows "send_handler ev req me w =
           catch500 ''Send email error''
             (send_try ev me (validStrings tov) (filterOptional ccv) (filterOptional bccv)
                subj bod (s_files req)) w"
proof -
  have "tov \<noteq> []" using assms(10) by auto
  then show ?thesis
    using assms by (auto simp: send_handler_def Let_def)
qed

text \<open>
  \<^bold>\<open>C7.\<close> When some address of the To, CC or BCC list of a well-formed \<open>/send\<close> request
  is not the address of a verified user, the request is answered with status 400 and the
  message that names the first list holding such an address, and the world is left exactly
  as it was: no message, no label, no auto-reply, no notification.
\<close>

theorem send_unverified_rejected:
  assumes "authenticated ev t w u me"
      and "parse_if_string ev (s_recipients req) = Some (JArr tov)"
      and "parse_if_string ev (s_cc req) = Some ccv"
      and "parse_if_string ev (s_bcc req) = Some bccv"
      and "s_subject req = JStr subj" and "subj \<noteq> []"
      and "s_body req = JStr bod" and "bod \<noteq> []"
      and "\<not> truthy ccv \<or> isArray ccv" and "\<not> truthy bccv \<or> isArray bccv"
      and "validStrings tov \<noteq> []"
      and "\<not> fault ev User_find"
      and "\<exists>a \<in> set (validStrings tov @ filterOptional ccv @ filterOptional bccv).
             rule_sender (users w) a"
  shows "send ev t req w =
           (Error_json 400
              (unverified_message (users w) (validStrings tov) (filterOptional ccv)), w)"
  unfolding send_def guarded_authenticated[OF assms(1)]
    send_handler_wellformed[OF assms(2-11)] catch500_def
    send_try_rejects[OF assms(12,13)]
  by simp

lemma req_cc_stranger_lists:
  "validStrings [JStr ''a@x.com'', JStr ''b@x.com''] = [''a@x.com'', ''b@x.com'']"
  "filterOptional (JArr [JStr ''z@x.com'']) = [''z@x.com'']"
  "filterOptional JUndefined = []"
  by code_simp+

lemma world0_strangers:
  "\<not> rule_sender (users world0) ''a@x.com''"
  "\<not> rule_sender (users world0) ''b@x.com''"
  "rule_sender (users world0) ''z@x.com''"
  by (simp_all add: rule_sender_def world0_def user_s_def user_a_def user_b_def)

theorem send_unverified_rejected_witness:
  "send ev_ok (TokenFor 1) req_cc_stranger world0 =
     (Error_json 400 ''Some CC recipients not found or unverified'', world0)"
proof -
  let ?to = "[JStr ''a@x.com'', JStr ''b@x.com'']"
  let ?cc = "JArr [JStr ''z@x.com'']"
  have a: "authenticated ev_ok (TokenFor 1) world0 user_s ''s@x.com''"
    using authenticated_example[where es = "emails world0" and ls = "labelsTbl world0"
        and ars = "autoReplies world0"]
    by simp
  have p1: "parse_if_string ev_ok (s_recipients req_cc_stranger) = Some (JArr ?to)"
    and p2: "parse_if_string ev_ok (s_cc req_cc_stranger) = Some ?cc"
    and p3: "parse_if_string ev_ok (s_bcc req_cc_stranger) = Some JUndefined"
    and p4: "s_subject req_cc_stranger = JStr ''Hello''"
    and p5: "s_body req_cc_stranger = JStr ''see you''"
    by (simp_all add: req_cc_stranger_def parse_if_string_def)
  have ne: "validStrings ?to \<noteq> []"
    unfolding req_cc_stranger_lists by simp
  have nf: "\<not> fault ev_ok User_find"
    by (simp add: ev_ok_def)
  have bad: "\<exists>a \<in> set (validStrings ?to @ filterOptional ?cc @ filterOptional JUndefined).
      rule_sender (users world0) a"
    unfolding req_cc_stranger_lists using world0_strangers by simp
  have msg: "unverified_message (users world0) (validStrings ?to) (filterOptional ?cc) =
      ''Some CC recipients not found or unverified''"
    unfolding req_cc_stranger_lists unverified_message_def using world0_strangers by simp
  have "send ev_ok (TokenFor 1) req_cc_stranger world0 =
      (Error_json 400 (unverified_message (users world0) (validStrings ?to) (filterOptional ?cc)),
       world0)"
    by (rule send_unverified_rejected[OF a p1 p2 p3 p4 _ p5 _ _ _ ne nf bad]) simp_all
  then show ?thesis
    unfolding msg .
qed

section \<open>Deleting a label\<close>

lemma deleteOne_find:
  "find P xs = Some x \<Longrightarrow> deleteOne P xs = Some (remove1 x xs)"
proof (induction xs)
  case Nil
  then show ?case by simp
next
  case (Cons y ys)
  show ?case
  proof (cases "P y")
    case True
    with Cons.prems show ?thesis by simp
  next
    case False
    with Cons.prems have "find P ys = Some x" by simp
    moreover from this have "P x" by (auto simp: find_Some_iff)
    ultimately show ?thesis using False Cons.IH by auto
  qed
qed

lemma filter_neq_removeAll: "filter (\<lambda>i. i \<noteq> l) xs = removeAll l xs"
  by (induction xs) auto

text \<open>
  \<^bold>\<open>C9.\<close> For a label of the caller: if it is a system label, the request is answered
  with status 400 ``Cannot delete system label'' and the world is unchanged; otherwise,
  the store answering, the label is removed from the label collection and detached from
  every message, and the messages are all kept and otherwise unchanged.
\<close>

theorem delete_label_cascade:
  assumes "authenticated ev t w u me"
      and "\<not> fault ev Label_findOne"
      and "find (\<lambda>lb. label_id lb = l \<and> userId lb = user_id u) (labelsTbl w) = Some lb"
  shows "(isSystemLabel lb \<longrightarrow>
            delete_label ev t (Id l) w = (Error_json 400 ''Cannot delete system label'', w)) \<and>
         (\<not> isSystemLabel lb \<and> \<not> fault ev Label_deleteOne \<and> \<not> fault ev Email_updateMany \<longrightarrow>
            delete_label ev t (Id l) w =
              (Ok_message ''Label deleted successfully'',
               w\<lparr>labelsTbl := remove1 lb (labelsTbl w),
                 emails := map (detach l) (emails w)\<rparr>))"
proof -
  have det: "(\<lambda>e. e\<lparr>labels := filter (\<lambda>i. i \<noteq> l) (labels e)\<rparr>) = detach l"
    by (simp add: detach_def fun_eq_iff filter_neq_removeAll)
  show ?thesis
    unfolding delete_label_def guarded_authenticated[OF assms(1)] catch500_def
      delete_label_try_def
    using assms(2,3) by (simp add: deleteOne_find det)
qed

theorem delete_label_cascade_witness:
  "delete_label ev_ok (TokenFor 2) (Id 51) world_labels =
     (Error_json 400 ''Cannot delete system label'', world_labels) \<and>
   map labels (emails (snd (delete_label ev_ok (TokenFor 2) (Id 50) world_labels))) = [[51]] \<and>
   map label_id (labelsTbl (snd (delete_label ev_ok (TokenFor 2) (Id 50) world_labels))) = [51]"
proof -
  have a: "authenticated ev_ok (TokenFor 2) world_labels user_a ''a@x.com''"
    by (simp add: authenticated_def authenticateToken_def ensureEmailVerified_def ev_ok_def
        world_labels_def world0_def user_s_def user_a_def)
  have nf: "\<not> fault ev_ok Label_findOne"
    by (simp add: ev_ok_def)
  have sys: "find (\<lambda>lb. label_id lb = 51 \<and> userId lb = user_id user_a) (labelsTbl world_labels)
      = Some \<lparr>label_id = 51, userId = 2, name = ''Spam'', isSystemLabel = True\<rparr>"
    by (simp add: world_labels_def user_a_def)
  have own: "find (\<lambda>lb. label_id lb = 50 \<and> userId lb = user_id user_a) (labelsTbl world_labels)
      = Some \<lparr>label_id = 50, userId = 2, name = ''Work'', isSystemLabel = False\<rparr>"
    by (simp add: world_labels_def user_a_def)
  show ?thesis
    using delete_label_cascade[OF a nf sys] delete_label_cascade[OF a nf own]
    by (simp add: ev_ok_def world_labels_def detach_def)
qed

section \<open>Steps that return\<close>

lemma returnsD: "returns Q m \<Longrightarrow> \<exists>x w'. m w = (Inr x, w') \<and> Q x"
  by (simp add: returns_def)

lemma returns_ret: "Q x \<Longrightarrow> returns Q (ret x)"
  by (simp add: returns_def ret_def)

lemma returns_andThen:
  assumes "returns Q1 m" and "\<And>x. Q1 x \<Longrightarrow> returns Q2 (f x)"
  shows "returns Q2 (andThen m f)"
  unfolding returns_def
proof
  fix w
  obtain x w1 where m: "m w = (Inr x, w1)" and q: "Q1 x"
    using returnsD[OF assms(1)] by blast
  obtain y w2 where "f x w1 = (Inr y, w2)" and "Q2 y"
    using returnsD[OF assms(2)[OF q]] by blast
  then show "\<exists>y w'. andThen m f w = (Inr y, w') \<and> Q2 y"
    using m by (simp add: andThen_def)
qed

lemma returns_weaken: "returns Q m \<Longrightarrow> (\<And>x. Q x \<Longrightarrow> Q' x) \<Longrightarrow> returns Q' m"
  unfolding returns_def by blast

lemma returns_for_each:
  "(\<And>x. x \<in> set xs \<Longrightarrow> returns (\<lambda>_. True) (f x)) \<Longrightarrow> returns (\<lambda>_. True) (for_each f xs)"
proof (induction xs)
  case Nil
  then show ?case by (simp add: returns_ret)
next
  case (Cons x xs)
  show ?case
    unfolding for_each.simps
    by (rule returns_andThen[where ?Q1.0 = "\<lambda>_. True"]) (simp_all add: Cons)
qed

lemma returns_save_email: "\<not> fault ev (Email_save e) \<Longrightarrow> returns (\<lambda>_. True) (save_email ev e)"
  by (simp add: returns_def save_email_def Let_def)

lemma returns_upload_all:
  "\<forall>f \<in> set fs. \<not> fault ev (Cloudinary_upload f) \<Longrightarrow> returns (\<lambda>_. True) (upload_all ev fs)"
proof (induction fs)
  case Nil
  then show ?case by (simp add: returns_ret)
next
  case (Cons f fs)
  have "returns (\<lambda>_. True) (andThen (upload_all ev fs) (\<lambda>as. ret (attachmentOf f # as)))"
    by (rule returns_andThen[where ?Q1.0 = "\<lambda>_. True"]) (use Cons in \<open>simp_all add: returns_ret\<close>)
  then show ?case using Cons.prems by simp
qed

lemma returns_classify: "returns (\<lambda>_. True) (classify ev e sndr)"
  by (simp add: returns_def classify_def split: prod.splits)

lemma returns_ensureSpamLabel:
  "\<not> fault ev Label_findOne \<Longrightarrow> \<not> fault ev Label_save \<Longrightarrow>
   returns (\<lambda>_. True) (ensureSpamLabel ev uid)"
  by (simp add: returns_def ensureSpamLabel_def Let_def split: option.splits)

lemma returns_spamLabelFor:
  "\<not> fault ev Label_findOne \<Longrightarrow> \<not> fault ev Label_save \<Longrightarrow>
   returns (\<lambda>_. True) (spamLabelFor ev spam ru)"
  unfolding spamLabelFor_def
  by (auto split: option.splits
      intro!: returns_ret returns_andThen[where ?Q1.0 = "\<lambda>_. True"] returns_ensureSpamLabel)

lemma returns_notify_unguarded:
  "\<not> emit_fault ev (channel n) \<Longrightarrow> returns (\<lambda>_. True) (notify_unguarded ev n)"
  by (simp add: returns_def notify_unguarded_def)

lemma returns_notified: "returns (\<lambda>_. True) (\<lambda>w. (Inr x, notify ev n w))"
  by (simp add: returns_def)


section \<open>Reply and forward do not ask who the caller is\<close>

lemma reply_try_returns:
  assumes nf: "\<forall>op. \<not> fault ev op"
      and emit: "\<not> emit_fault ev (sender orig)"
      and orig: "find (\<lambda>e. email_id e = n) (emails w) = Some orig"
      and ru: "findVerified (users w) (sender orig) = Some ru"
      and req: "r_emailId req = Id n"
  shows "\<exists>w'. reply_try ev me req w =
           (Inr (Ok_message ''Reply sent successfully''), w')"
proof -
  let ?rest = "\<lambda>atts. (let replyEmail =
              (new_Email ev)
                \<lparr>sender := me, recipients := [sender orig],
                 subject := ''Re: '' @ subject orig,
                 body := templ (r_body req) @ ''<br><br>--- Original Message ---<br>'' @ body orig,
                 attachments := atts, folder := Sent\<rparr>
        in
     andThen (classify ev replyEmail me) (\<lambda>spam.
     andThen (if spam then andThen (ensureSpamLabel ev (user_id ru)) (\<lambda>l. ret (Some l))
              else ret None) (\<lambda>spamLabel.
     andThen (save_email ev replyEmail) (\<lambda>_.
     andThen (save_email ev
                ((new_Email ev)
                   \<lparr>sender := me, recipients := [sender orig],
                    subject := ''Re: '' @ subject orig,
                    body := templ (r_body req) @ ''<br><br>--- Original Message ---<br>'' @ body orig,
                    attachments := atts,
                    folder := (if spam then Spam else Inbox), isSpam := spam,
                    labels := (case spamLabel of
                                 Some l \<Rightarrow> if spam then [label_id l] else []
                               | None \<Rightarrow> [])\<rparr>)) (\<lambda>recipientInboxEmail.
     andThen (notify_unguarded ev
                \<lparr>channel = sender orig, n_sender = me,
                 n_subject = ''Re: '' @ subject orig,
                 n_sentAt = sentAt recipientInboxEmail, n_isSpam = Some spam\<rparr>) (\<lambda>_.
     ret (Ok_message ''Reply sent successfully'')))))))"
  have unfold: "reply_try ev me req w = andThen (upload_all ev (r_files req)) ?rest w"
    using nf orig ru req
    by (simp add: reply_try_def andThen_def Email_find_by_id_def User_findOne_verified_def)
  have label: "returns (\<lambda>_. True)
      (if spam then andThen (ensureSpamLabel ev (user_id ru)) (\<lambda>l. ret (Some l)) else ret None)"
    for spam
    using nf
    by (auto intro!: returns_ret returns_andThen[where ?Q1.0 = "\<lambda>_. True"]
        returns_ensureSpamLabel)
  have "returns (\<lambda>r. r = Ok_message ''Reply sent successfully'')
      (andThen (upload_all ev (r_files req)) ?rest)"
    unfolding Let_def
    apply (rule returns_andThen[where ?Q1.0 = "\<lambda>_. True"])
     apply (simp add: returns_upload_all nf)
    apply (rule returns_andThen[where ?Q1.0 = "\<lambda>_. True"])
     apply (rule returns_classify)
    apply (rule returns_andThen[where ?Q1.0 = "\<lambda>_. True"])
     apply (rule label)
    apply (rule returns_andThen[where ?Q1.0 = "\<lambda>_. True"])
     apply (simp add: returns_save_email nf)
    apply (rule returns_andThen[where ?Q1.0 = "\<lambda>_. True"])
     apply (simp add: returns_save_email nf)
    apply (rule returns_andThen[where ?Q1.0 = "\<lambda>_. True"])
     apply (simp add: returns_notify_unguarded emit)
    apply (simp add: returns_ret)
    done
  from returnsD[OF this, of w] show ?thesis
    unfolding unfold by auto
qed

lemma forward_try_returns:
  assumes nf: "\<forall>op. \<not> fault ev op"
      and orig: "find (\<lambda>e. email_id e = n) (emails w) = Some orig"
      and cnt: "length (verifiedAmong (users w) (strings rs)) = length rs"
      and req: "f_emailId req = Id n"
  shows "\<exists>w'. forward_try ev me req rs w =
           (Inr (Ok_message ''Email forwarded successfully''), w')"
proof -
  let ?rest = "\<lambda>atts.
       (let forwardEmail =
              (new_Email ev)
                \<lparr>sender := me, recipients := map templ rs,
                 subject := ''Fwd: '' @ subject orig,
                 body := (if truthy (f_body req) then templ (f_body req) else []) @
                         ''<br><br>--- Forwarded Message ---<br>'' @ body orig,
                 attachments := attachments orig @ atts, folder := Sent\<rparr>
        in
     andThen (classify ev forwardEmail me) (\<lambda>spam.
     andThen (save_email ev forwardEmail) (\<lambda>saved.
     andThen (for_each (forward_copy ev (verifiedAmong (users w) (strings rs)) saved spam)
                (map templ rs)) (\<lambda>_.
     ret (Ok_message ''Email forwarded successfully'')))))"
  have unfold: "forward_try ev me req rs w = andThen (upload_all ev (f_files req)) ?rest w"
    using nf orig cnt req
    by (simp add: forward_try_def andThen_def Email_find_by_id_def User_find_verified_def)
  have copy: "returns (\<lambda>_. True) (forward_copy ev rus saved spam r)" for rus saved spam r
    unfolding forward_copy_def Let_def
    apply (rule returns_andThen[where ?Q1.0 = "\<lambda>_. True"])
     apply (simp add: returns_spamLabelFor nf)
    apply (rule returns_andThen[where ?Q1.0 = "\<lambda>_. True"])
     apply (simp add: returns_save_email nf)
    apply (rule returns_notified)
    done
  have "returns (\<lambda>r. r = Ok_message ''Email forwarded successfully'')
      (andThen (upload_all ev (f_files req)) ?rest)"
    unfolding Let_def
    apply (rule returns_andThen[where ?Q1.0 = "\<lambda>_. True"])
     apply (simp add: returns_upload_all nf)
    apply (rule returns_andThen[where ?Q1.0 = "\<lambda>_. True"])
     apply (rule returns_classify)
    apply (rule returns_andThen[where ?Q1.0 = "\<lambda>_. True"])
     apply (simp add: returns_save_email nf)
    apply (rule returns_andThen[where ?Q1.0 = "\<lambda>_. True"])
     apply (rule returns_for_each)
     apply (rule copy)
    apply (simp add: returns_ret)
    done
  from returnsD[OF this, of w] show ?thesis
    unfolding unfold by auto
qed

lemma find_conj_None:
  "find P xs = Some x \<Longrightarrow> \<forall>y \<in> set xs. P y \<longrightarrow> y = x \<Longrightarrow> \<not> Q x \<Longrightarrow>
   find (\<lambda>y. P y \<and> Q y) xs = None"
  by (auto simp: find_None_iff)

section \<open>What a successful step has done\<close>

lemma andThen_InrD:
  "andThen m f w = (Inr y, w') \<Longrightarrow> \<exists>x w1. m w = (Inr x, w1) \<and> f x w1 = (Inr y, w')"
  by (auto simp: andThen_def split: prod.splits sum.splits)

lemma grows_refl: "grows w w []"
  by (simp add: grows_def)

lemma grows_trans: "grows w w1 n1 \<Longrightarrow> grows w1 w2 n2 \<Longrightarrow> grows w w2 (n1 @ n2)"
  by (simp add: grows_def)

lemma ret_Inr: "ret x w = (Inr y, w') \<Longrightarrow> y = x \<and> w' = w"
  by (auto simp: ret_def)

lemma save_email_Inr:
  assumes "save_email ev e w = (Inr e', w')"
  shows "e' = e\<lparr>email_id := next_id w\<rparr>" and "grows w w' [e']" and "\<not> fault ev (Email_save e)"
  using assms by (auto simp: save_email_def Let_def grows_def split: if_splits)

lemma upload_all_Inr: "upload_all ev fs w = (Inr as, w') \<Longrightarrow> as = map attachmentOf fs \<and> w' = w"
proof (induction fs arbitrary: as w')
  case Nil
  then show ?case by (simp add: ret_def)
next
  case (Cons f fs)
  from Cons.prems have nf: "\<not> fault ev (Cloudinary_upload f)"
    by (auto simp: throw_def split: if_splits)
  with Cons.prems have "andThen (upload_all ev fs) (\<lambda>as. ret (attachmentOf f # as)) w = (Inr as, w')"
    by simp
  from andThen_InrD[OF this] obtain bs w1 where u: "upload_all ev fs w = (Inr bs, w1)"
    and r: "ret (attachmentOf f # bs) w1 = (Inr as, w')"
    by blast
  from Cons.IH[OF u] r show ?case by (auto simp: ret_def)
qed

lemma ensureSpamLabel_grows: "ensureSpamLabel ev uid w = (r, w') \<Longrightarrow> grows w w' []"
  by (auto simp: ensureSpamLabel_def Let_def grows_def split: if_splits option.splits)

lemma spamLabelFor_grows: "spamLabelFor ev spam ru w = (r, w') \<Longrightarrow> grows w w' []"
  by (auto simp: spamLabelFor_def ret_def andThen_def grows_def
      split: option.splits if_splits prod.splits sum.splits dest!: ensureSpamLabel_grows)

lemma notify_grows: "grows w (notify ev n w) []"
  by (simp add: notify_def grows_def log_line_def)

lemma AutoReply_find_Inr:
  "AutoReply_find ev uid w = (Inr r, w') \<Longrightarrow>
     r = find (\<lambda>c. ar_userId c = uid) (autoReplies w) \<and> w' = w"
  by (auto simp: AutoReply_find_def split: if_splits)

lemma content_saved:
  "email_id e = 0 \<Longrightarrow> content (e\<lparr>email_id := n\<rparr>) = e\<lparr>labels := []\<rparr>"
  by (simp add: content_def)

lemma deliver_copy_Inr:
  assumes "deliver_copy ev rus sentEmail spam a w = (Inr ru, w')"
  shows "\<exists>c. grows w w' [c] \<and> content c = inboxCopy ev sentEmail spam a \<and>
             \<not> fault ev (Email_save (c\<lparr>email_id := 0\<rparr>)) \<and>
             ru = find (\<lambda>u. user_email u = Some a) rus"
proof -
  from assms have "andThen (spamLabelFor ev spam (find (\<lambda>u. user_email u = Some a) rus))
      (\<lambda>spamLabel.
         andThen (save_email ev
                    ((new_Email ev)
                       \<lparr>sender := sender sentEmail, recipients := [a],
                        cc := cc sentEmail, bcc := bcc sentEmail,
                        subject := subject sentEmail, body := body sentEmail,
                        attachments := attachments sentEmail,
                        folder := (if spam then Spam else Inbox),
                        sentAt := sentAt sentEmail, isSpam := spam,
                        labels := (case spamLabel of
                                     Some l \<Rightarrow> if spam then [label_id l] else []
                                   | None \<Rightarrow> [])\<rparr>)) (\<lambda>inboxEmail w.
           (Inr (find (\<lambda>u. user_email u = Some a) rus),
            notify ev \<lparr>channel = a, n_sender = sender sentEmail,
                       n_subject = subject sentEmail, n_sentAt = sentAt inboxEmail,
                       n_isSpam = Some spam\<rparr> w))) w = (Inr ru, w')"
    unfolding deliver_copy_def Let_def .
  from andThen_InrD[OF this] obtain sl w1 where
    l: "spamLabelFor ev spam (find (\<lambda>u. user_email u = Some a) rus) w = (Inr sl, w1)"
    and rest: "andThen (save_email ev
                    ((new_Email ev)
                       \<lparr>sender := sender sentEmail, recipients := [a],
                        cc := cc sentEmail, bcc := bcc sentEmail,
                        subject := subject sentEmail, body := body sentEmail,
                        attachments := attachments sentEmail,
                        folder := (if spam then Spam else Inbox),
                        sentAt := sentAt sentEmail, isSpam := spam,
                        labels := (case sl of
                                     Some l \<Rightarrow> if spam then [label_id l] else []
                                   | None \<Rightarrow> [])\<rparr>)) (\<lambda>inboxEmail w.
           (Inr (find (\<lambda>u. user_email u = Some a) rus),
            notify ev \<lparr>channel = a, n_sender = sender sentEmail,
                       n_subject = subject sentEmail, n_sentAt = sentAt inboxEmail,
                       n_isSpam = Some spam\<rparr> w)) w1 = (Inr ru, w')"
    by blast
  let ?doc = "(new_Email ev)
                       \<lparr>sender := sender sentEmail, recipients := [a],
                        cc := cc sentEmail, bcc := bcc sentEmail,
                        subject := subject sentEmail, body := body sentEmail,
                        attachments := attachments sentEmail,
                        folder := (if spam then Spam else Inbox),
                        sentAt := sentAt sentEmail, isSpam := spam,
                        labels := (case sl of
                                     Some l \<Rightarrow> if spam then [label_id l] else []
                                   | None \<Rightarrow> [])\<rparr>"
  from andThen_InrD[OF rest] obtain c w2 where
    s: "save_email ev ?doc w1 = (Inr c, w2)"
    and n: "(Inr (find (\<lambda>u. user_email u = Some a) rus),
            notify ev \<lparr>channel = a, n_sender = sender sentEmail,
                       n_subject = subject sentEmail, n_sentAt = sentAt c,
                       n_isSpam = Some spam\<rparr> w2) = (Inr ru, w')"
    by blast
  have c: "c = ?doc\<lparr>email_id := next_id w1\<rparr>" and nf: "\<not> fault ev (Email_save ?doc)"
    using save_email_Inr[OF s] by simp_all
  have g: "grows w w' [c]"
    using grows_trans[OF grows_trans[OF spamLabelFor_grows[OF l] save_email_Inr(2)[OF s]]
        notify_grows] n by auto
  have "content c = inboxCopy ev sentEmail spam a"
    unfolding c by (simp add: content_def inboxCopy_def new_Email_def)
  moreover have "c\<lparr>email_id := 0\<rparr> = ?doc"
    unfolding c by (simp add: new_Email_def)
  ultimately show ?thesis
    using g nf n by auto
qed


lemma autoReplyTo_Inr:
  assumes "autoReplyTo ev sentEmail spam a (find (\<lambda>u. user_email u = Some a) rus) w = (Inr (), w')"
  shows "\<exists>new. grows w w' new \<and>
               map content new = autoReplyDocs ev rus (autoReplies w) sentEmail spam a"
proof (cases "autoReplyOf rus (autoReplies w) a")
  case None
  have "w' = w"
    using assms None
    by (auto simp: autoReplyTo_def autoReplyOf_def ret_def andThen_def AutoReply_find_def
        split: option.splits if_splits)
  then show ?thesis
    using None by (auto simp: autoReplyDocs_def grows_refl)
next
  case (Some cfg)
  then obtain u where u: "find (\<lambda>u. user_email u = Some a) rus = Some u"
    and cfg: "find (\<lambda>c. ar_userId c = user_id u) (autoReplies w) = Some cfg"
    and on: "enabled cfg" "isEmailVerified u"
    by (auto simp: autoReplyOf_def split: option.splits if_splits)
  show ?thesis
  proof (cases spam)
    case True
    then have "w' = w"
      using assms u by (simp add: autoReplyTo_def ret_def)
    then show ?thesis
      using True by (auto simp: autoReplyDocs_def grows_refl)
  next
    case False
    let ?d1 = "(new_Email ev)
                 \<lparr>sender := a, recipients := [sender sentEmail],
                  subject := ''Auto Reply: '' @ subject sentEmail,
                  body := message cfg, folder := Sent, sentAt := now ev\<rparr>"
    let ?d2 = "\<lambda>replyEmail. (new_Email ev)
                 \<lparr>sender := a, recipients := [sender sentEmail],
                  subject := ''Auto Reply: '' @ subject sentEmail,
                  body := message cfg, folder := Inbox, sentAt := sentAt replyEmail\<rparr>"
    have nf: "\<not> fault ev AutoReply_findOne"
      using assms u False by (auto simp: autoReplyTo_def andThen_def AutoReply_find_def
          split: if_splits)
    have run: "andThen (save_email ev ?d1) (\<lambda>replyEmail.
                 andThen (save_email ev (?d2 replyEmail)) (\<lambda>senderInboxEmail w.
                   (Inr (),
                    notify ev \<lparr>channel = sender sentEmail, n_sender = a,
                               n_subject = ''Auto Reply: '' @ subject sentEmail,
                               n_sentAt = sentAt senderInboxEmail, n_isSpam = None\<rparr> w))) w
               = (Inr (), w')"
      using assms u False cfg on nf
      by (simp add: autoReplyTo_def andThen_def AutoReply_find_def)
    from andThen_InrD[OF run] obtain r1 w1 where
      s1: "save_email ev ?d1 w = (Inr r1, w1)"
      and rest: "andThen (save_email ev (?d2 r1)) (\<lambda>senderInboxEmail w.
                   (Inr (),
                    notify ev \<lparr>channel = sender sentEmail, n_sender = a,
                               n_subject = ''Auto Reply: '' @ subject sentEmail,
                               n_sentAt = sentAt senderInboxEmail, n_isSpam = None\<rparr> w)) w1
               = (Inr (), w')"
      by blast
    from andThen_InrD[OF rest] obtain r2 w2 where
      s2: "save_email ev (?d2 r1) w1 = (Inr r2, w2)"
      and n: "(Inr (), notify ev \<lparr>channel = sender sentEmail, n_sender = a,
                               n_subject = ''Auto Reply: '' @ subject sentEmail,
                               n_sentAt = sentAt r2, n_isSpam = None\<rparr> w2) = (Inr (), w')"
      by blast
    have r1: "r1 = ?d1\<lparr>email_id := next_id w\<rparr>"
      using save_email_Inr(1)[OF s1] .
    have r2: "r2 = (?d2 r1)\<lparr>email_id := next_id w1\<rparr>"
      using save_email_Inr(1)[OF s2] .
    have g: "grows w w' ([r1] @ [r2] @ [])"
      using grows_trans[OF save_email_Inr(2)[OF s1]
          grows_trans[OF save_email_Inr(2)[OF s2] notify_grows]] n by auto
    have c1: "content r1 = autoReplyDoc ev sentEmail a cfg Sent"
      unfolding r1 by (simp add: content_def autoReplyDoc_def new_Email_def)
    have c2: "content r2 = autoReplyDoc ev sentEmail a cfg Inbox"
      unfolding r2 r1 by (simp add: content_def autoReplyDoc_def new_Email_def)
    have "map content [r1, r2] = autoReplyDocs ev rus (autoReplies w) sentEmail spam a"
      using False Some c1 c2 by (simp add: autoReplyDocs_def)
    with g show ?thesis by auto
  qed
qed

lemma deliver_to_Inr:
  assumes "deliver_to ev rus sentEmail spam a w = (Inr (), w')"
  shows "\<exists>new. grows w w' new \<and>
               map content new =
                 inboxCopy ev sentEmail spam a # autoReplyDocs ev rus (autoReplies w) sentEmail spam a \<and>
               \<not> fault ev (Email_save (hd new\<lparr>email_id := 0\<rparr>))"
proof -
  from andThen_InrD[OF assms[unfolded deliver_to_def]] obtain ru w1 where
    d: "deliver_copy ev rus sentEmail spam a w = (Inr ru, w1)"
    and ar: "autoReplyTo ev sentEmail spam a ru w1 = (Inr (), w')"
    by blast
  from deliver_copy_Inr[OF d] obtain c where
    g1: "grows w w1 [c]" and c: "content c = inboxCopy ev sentEmail spam a"
    and nf: "\<not> fault ev (Email_save (c\<lparr>email_id := 0\<rparr>))"
    and ru: "ru = find (\<lambda>u. user_email u = Some a) rus"
    by blast
  from autoReplyTo_Inr[OF ar[unfolded ru]] obtain new where
    g2: "grows w1 w' new"
    and n: "map content new = autoReplyDocs ev rus (autoReplies w1) sentEmail spam a"
    by blast
  have "autoReplies w1 = autoReplies w"
    using g1 by (simp add: grows_def)
  with grows_trans[OF g1 g2] c n nf show ?thesis
    by (intro exI[of _ "[c] @ new"]) simp
qed

lemma deliver_cc_Inr:
  assumes "deliver_cc ev rus sentEmail spam a w = (Inr (), w')"
  shows "\<exists>c. grows w w' [c] \<and> content c = inboxCopy ev sentEmail spam a \<and>
             \<not> fault ev (Email_save (c\<lparr>email_id := 0\<rparr>))"
proof -
  from andThen_InrD[OF assms[unfolded deliver_cc_def]] obtain ru w1 where
    d: "deliver_copy ev rus sentEmail spam a w = (Inr ru, w1)"
    and r: "ret () w1 = (Inr (), w')"
    by blast
  from r have "w1 = w'" by (simp add: ret_def)
  with deliver_copy_Inr[OF d] show ?thesis by blast
qed

lemma to_loop_Inr:
  "for_each (deliver_to ev rus sentEmail spam) as w = (Inr (), w') \<Longrightarrow>
   \<exists>new. grows w w' new \<and>
         map content new =
           concat (map (\<lambda>a. inboxCopy ev sentEmail spam a #
                             autoReplyDocs ev rus (autoReplies w) sentEmail spam a) as) \<and>
         copiesFor ev sentEmail spam as new"
proof (induction as arbitrary: w)
  case Nil
  then show ?case by (auto simp: ret_def grows_refl copiesFor_def)
next
  case (Cons a as)
  from andThen_InrD[OF Cons.prems[unfolded for_each.simps]] obtain x w1 where
    d: "deliver_to ev rus sentEmail spam a w = (Inr x, w1)"
    and l: "for_each (deliver_to ev rus sentEmail spam) as w1 = (Inr (), w')"
    by blast
  from deliver_to_Inr[of ev rus sentEmail spam a w w1] d obtain n1 where
    g1: "grows w w1 n1"
    and c1: "map content n1 =
        inboxCopy ev sentEmail spam a # autoReplyDocs ev rus (autoReplies w) sentEmail spam a"
    and nf: "\<not> fault ev (Email_save (hd n1\<lparr>email_id := 0\<rparr>))"
    by auto
  from Cons.IH[OF l] obtain n2 where
    g2: "grows w1 w' n2"
    and c2: "map content n2 =
        concat (map (\<lambda>a. inboxCopy ev sentEmail spam a #
                          autoReplyDocs ev rus (autoReplies w1) sentEmail spam a) as)"
    and f2: "copiesFor ev sentEmail spam as n2"
    by blast
  have ar: "autoReplies w1 = autoReplies w"
    using g1 by (simp add: grows_def)
  from c1 obtain c cs where n1: "n1 = c # cs" and cc: "content c = inboxCopy ev sentEmail spam a"
    by (cases n1) auto
  have "copiesFor ev sentEmail spam (a # as) (n1 @ n2)"
    using f2 nf cc n1 by (auto simp: copiesFor_def)
  with grows_trans[OF g1 g2] c1 c2 ar show ?case
    by (intro exI[of _ "n1 @ n2"]) simp
qed

lemma cc_loop_Inr:
  "for_each (deliver_cc ev rus sentEmail spam) as w = (Inr (), w') \<Longrightarrow>
   \<exists>new. grows w w' new \<and> map content new = map (inboxCopy ev sentEmail spam) as \<and>
         copiesFor ev sentEmail spam as new"
proof (induction as arbitrary: w)
  case Nil
  then show ?case by (auto simp: ret_def grows_refl copiesFor_def)
next
  case (Cons a as)
  from andThen_InrD[OF Cons.prems[unfolded for_each.simps]] obtain x w1 where
    d: "deliver_cc ev rus sentEmail spam a w = (Inr x, w1)"
    and l: "for_each (deliver_cc ev rus sentEmail spam) as w1 = (Inr (), w')"
    by blast
  from deliver_cc_Inr[of ev rus sentEmail spam a w w1] d obtain c where
    g1: "grows w w1 [c]" and cc: "content c = inboxCopy ev sentEmail spam a"
    and nf: "\<not> fault ev (Email_save (c\<lparr>email_id := 0\<rparr>))"
    by auto
  from Cons.IH[OF l] obtain n2 where
    g2: "grows w1 w' n2" and c2: "map content n2 = map (inboxCopy ev sentEmail spam) as"
    and f2: "copiesFor ev sentEmail spam as n2"
    by blast
  have "copiesFor ev sentEmail spam (a # as) ([c] @ n2)"
    using f2 nf cc by (auto simp: copiesFor_def)
  with grows_trans[OF g1 g2] cc c2 show ?case
    by (intro exI[of _ "[c] @ n2"]) simp
qed


lemma classify_Inr:
  assumes "classify ev e sndr w = (r, w')"
  shows "r = Inr (detectSpam_try ev (users w) (doc_view e) sndr = Inr True)"
    and "users w' = users w" and "autoReplies w' = autoReplies w"
    and "emails w' = emails w" and "spam_calls w' = Suc (spam_calls w)"
  using assms
  by (auto simp: classify_def detectSpam_counted_def detectSpam_def
      split: prod.splits sum.splits)

lemma inboxCopy_saved: "inboxCopy ev (e\<lparr>email_id := n\<rparr>) spam a = inboxCopy ev e spam a"
  by (simp add: inboxCopy_def)

lemma autoReplyDocs_saved:
  "autoReplyDocs ev us ars (e\<lparr>email_id := n\<rparr>) spam a = autoReplyDocs ev us ars e spam a"
  by (simp add: autoReplyDocs_def autoReplyDoc_def split: option.splits)

lemma copiesFor_saved:
  "copiesFor ev (e\<lparr>email_id := n\<rparr>) spam as new = copiesFor ev e spam as new"
  by (simp add: copiesFor_def inboxCopy_saved)

lemma copiesFor_append:
  "copiesFor ev e spam as n1 \<Longrightarrow> copiesFor ev e spam bs n2 \<Longrightarrow>
   copiesFor ev e spam (as @ bs) (n1 @ n2)"
  unfolding copiesFor_def by auto

lemma send_try_Ok:
  assumes ok: "send_try ev me rs ccs bccs subj bod files w =
                 (Inr (Ok_message ''Email sent successfully''), w')"
  defines "sc \<equiv> sentCopy ev me rs ccs bccs subj bod (map attachmentOf files)"
      and "rus \<equiv> verifiedAmong (users w) (remdups (rs @ ccs @ bccs))"
      and "v \<equiv> verdictOf ev (users w) me rs subj bod (map attachmentOf files)"
  shows "\<exists>s new.
           emails w' = emails w @ s # new \<and> users w' = users w \<and>
           autoReplies w' = autoReplies w \<and> spam_calls w' = Suc (spam_calls w) \<and>
           content s = sc \<and>
           map content new = fanOut ev rus (autoReplies w) sc v rs ccs bccs \<and>
           copiesFor ev sc v (rs @ ccs @ bccs) new \<and>
           (\<forall>a \<in> set (rs @ ccs @ bccs). \<not> rule_sender (users w) a)"
proof -
  let ?all = "remdups (rs @ ccs @ bccs)"
  have r: "list_all (\<lambda>e. Some e \<in> set (map user_email rus)) rs
      \<longleftrightarrow> (\<forall>e \<in> set rs. \<not> rule_sender (users w) e)"
    unfolding rus_def by (rule every_valid) auto
  have c: "list_all (\<lambda>e. Some e \<in> set (map user_email rus)) ccs
      \<longleftrightarrow> (\<forall>e \<in> set ccs. \<not> rule_sender (users w) e)"
    unfolding rus_def by (rule every_valid) auto
  have b: "list_all (\<lambda>e. Some e \<in> set (map user_email rus)) bccs
      \<longleftrightarrow> (\<forall>e \<in> set bccs. \<not> rule_sender (users w) e)"
    unfolding rus_def by (rule every_valid) auto
  let ?doc = "(new_Email ev)
                       \<lparr>sender := me, recipients := rs, cc := ccs, bcc := bccs,
                        subject := subj, body := bod, attachments := map attachmentOf files,
                        folder := Sent, sentAt := now ev\<rparr>"
  let ?tail = "\<lambda>atts. andThen (save_email ev
                    ((new_Email ev)
                       \<lparr>sender := me, recipients := rs, cc := ccs, bcc := bccs,
                        subject := subj, body := bod, attachments := atts,
                        folder := Sent, sentAt := now ev\<rparr>)) (\<lambda>sentEmail.
         andThen (classify ev sentEmail me) (\<lambda>spam.
         andThen (for_each (deliver_to ev rus sentEmail spam) rs) (\<lambda>_.
         andThen (for_each (deliver_cc ev rus sentEmail spam) ccs) (\<lambda>_.
         andThen (for_each (deliver_cc ev rus sentEmail spam) bccs) (\<lambda>_.
         ret (Ok_message ''Email sent successfully''))))))"
  have valid: "\<forall>a \<in> set (rs @ ccs @ bccs). \<not> rule_sender (users w) a"
    and run: "andThen (upload_all ev files) ?tail w =
                (Inr (Ok_message ''Email sent successfully''), w')"
    using ok unfolding send_try_def andThen_User_find rus_def[symmetric] r c b
    by (auto simp: ret_def split: if_splits)
  from andThen_InrD[OF run] obtain atts w0 where
    up: "upload_all ev files w = (Inr atts, w0)"
    and run1: "?tail atts w0 = (Inr (Ok_message ''Email sent successfully''), w')"
    by blast
  have atts: "atts = map attachmentOf files" and w0: "w0 = w"
    using upload_all_Inr[OF up] by simp_all
  from andThen_InrD[OF run1[unfolded atts w0]] obtain s w1 where
    sv: "save_email ev ?doc w = (Inr s, w1)"
    and run2: "andThen (classify ev s me) (\<lambda>spam.
         andThen (for_each (deliver_to ev rus s spam) rs) (\<lambda>_.
         andThen (for_each (deliver_cc ev rus s spam) ccs) (\<lambda>_.
         andThen (for_each (deliver_cc ev rus s spam) bccs) (\<lambda>_.
         ret (Ok_message ''Email sent successfully''))))) w1 =
       (Inr (Ok_message ''Email sent successfully''), w')"
    by blast
  have s: "s = ?doc\<lparr>email_id := next_id w\<rparr>" and g1: "grows w w1 [s]"
    using save_email_Inr[OF sv] by simp_all
  have sc: "s = sc\<lparr>email_id := next_id w\<rparr>"
    unfolding s sc_def by (simp add: sentCopy_def new_Email_def)
  have cs: "content s = sc"
    unfolding sc by (simp add: content_def sc_def sentCopy_def new_Email_def)
  from andThen_InrD[OF run2] obtain spam w2 where
    cl: "classify ev s me w1 = (Inr spam, w2)"
    and run3: "andThen (for_each (deliver_to ev rus s spam) rs) (\<lambda>_.
         andThen (for_each (deliver_cc ev rus s spam) ccs) (\<lambda>_.
         andThen (for_each (deliver_cc ev rus s spam) bccs) (\<lambda>_.
         ret (Ok_message ''Email sent successfully'')))) w2 =
       (Inr (Ok_message ''Email sent successfully''), w')"
    by blast
  have "doc_view s = \<lparr>m_subject = Some subj, m_body = Some bod, m_recipients = Some rs,
      m_attachments = Some (map attachmentOf files)\<rparr>"
    unfolding s by (simp add: doc_view_def)
  then have spam: "spam = v"
    using classify_Inr(1)[OF cl] g1 by (simp add: v_def verdictOf_def grows_def)
  have w2: "users w2 = users w" "autoReplies w2 = autoReplies w" "emails w2 = emails w @ [s]"
    "spam_calls w2 = Suc (spam_calls w)"
    using classify_Inr(2-5)[OF cl] g1 by (simp_all add: grows_def)
  from andThen_InrD[OF run3] obtain x3 w3 where
    l1: "for_each (deliver_to ev rus s spam) rs w2 = (Inr x3, w3)"
    and run4: "andThen (for_each (deliver_cc ev rus s spam) ccs) (\<lambda>_.
         andThen (for_each (deliver_cc ev rus s spam) bccs) (\<lambda>_.
         ret (Ok_message ''Email sent successfully''))) w3 =
       (Inr (Ok_message ''Email sent successfully''), w')"
    by blast
  from andThen_InrD[OF run4] obtain x4 w4 where
    l2: "for_each (deliver_cc ev rus s spam) ccs w3 = (Inr x4, w4)"
    and run5: "andThen (for_each (deliver_cc ev rus s spam) bccs) (\<lambda>_.
         ret (Ok_message ''Email sent successfully'')) w4 =
       (Inr (Ok_message ''Email sent successfully''), w')"
    by blast
  from andThen_InrD[OF run5] obtain x5 w5 where
    l3: "for_each (deliver_cc ev rus s spam) bccs w4 = (Inr x5, w5)"
    and fin: "ret (Ok_message ''Email sent successfully'') w5 =
       (Inr (Ok_message ''Email sent successfully''), w')"
    by blast
  have w5: "w5 = w'"
    using fin by (simp add: ret_def)
  from to_loop_Inr[of ev rus s spam rs w2 w3] l1 obtain n1 where
    g3: "grows w2 w3 n1"
    and c1: "map content n1 =
        concat (map (\<lambda>a. inboxCopy ev s spam a # autoReplyDocs ev rus (autoReplies w2) s spam a) rs)"
    and f1: "copiesFor ev s spam rs n1"
    by auto
  from cc_loop_Inr[of ev rus s spam ccs w3 w4] l2 obtain n2 where
    g4: "grows w3 w4 n2" and c2: "map content n2 = map (inboxCopy ev s spam) ccs"
    and f2: "copiesFor ev s spam ccs n2"
    by auto
  from cc_loop_Inr[of ev rus s spam bccs w4 w5] l3 obtain n3 where
    g5: "grows w4 w5 n3" and c3: "map content n3 = map (inboxCopy ev s spam) bccs"
    and f3: "copiesFor ev s spam bccs n3"
    by auto
  have g: "grows w2 w' (n1 @ n2 @ n3)"
    using grows_trans[OF g3 grows_trans[OF g4 g5]] w5 by simp
  have fo: "map content (n1 @ n2 @ n3) = fanOut ev rus (autoReplies w) sc v rs ccs bccs"
    using c1 c2 c3 w2(2)
    by (simp add: fanOut_def sc spam inboxCopy_saved autoReplyDocs_saved)
  have cf: "copiesFor ev sc v (rs @ ccs @ bccs) (n1 @ n2 @ n3)"
    using copiesFor_append[OF f1 copiesFor_append[OF f2 f3]]
    by (simp add: sc spam copiesFor_saved)
  show ?thesis
    using g w2 cs fo cf valid
    by (intro exI[of _ s] exI[of _ "n1 @ n2 @ n3"]) (simp add: grows_def)
qed

section \<open>What reply and forward store and announce\<close>

lemma save_email_emitted: "save_email ev e w = (r, w') \<Longrightarrow> emitted w' = emitted w"
  by (auto simp: save_email_def Let_def split: if_splits)

lemma classify_emitted: "classify ev e sndr w = (r, w') \<Longrightarrow> emitted w' = emitted w"
  by (auto simp: classify_def detectSpam_counted_def detectSpam_def
      split: prod.splits sum.splits)

lemma ensureSpamLabel_emitted: "ensureSpamLabel ev uid w = (r, w') \<Longrightarrow> emitted w' = emitted w"
  by (auto simp: ensureSpamLabel_def Let_def split: if_splits option.splits)

lemma spamLabelFor_emitted: "spamLabelFor ev spam ru w = (r, w') \<Longrightarrow> emitted w' = emitted w"
  by (auto simp: spamLabelFor_def ret_def andThen_def
      split: option.splits if_splits prod.splits sum.splits dest!: ensureSpamLabel_emitted)

lemma notify_unguarded_Inr:
  assumes "notify_unguarded ev n w = (Inr x, w')"
  shows "emails w' = emails w" and "emitted w' = (if io ev then emitted w @ [n] else emitted w)"
  using assms by (auto simp: notify_unguarded_def log_line_def split: if_splits)

lemma notify_effect:
  "emails (notify ev n w) = emails w"
  "emitted (notify ev n w) =
     (if io ev \<and> \<not> emit_fault ev (channel n) then emitted w @ [n] else emitted w)"
  by (simp_all add: notify_def log_line_def)

lemma reply_label_step:
  assumes "(if spam then andThen (ensureSpamLabel ev uid) (\<lambda>l. ret (Some l)) else ret None) w
             = (Inr sl, w')"
  shows "emails w' = emails w" and "emitted w' = emitted w"
  using assms
  by (auto simp: ret_def andThen_def grows_def split: if_splits prod.splits sum.splits
      dest: ensureSpamLabel_grows ensureSpamLabel_emitted)

lemma reply_try_Ok:
  assumes run: "reply_try ev me req w = (Inr (Ok_message ''Reply sent successfully''), w')"
      and nf: "\<not> fault ev Email_findById" "\<not> fault ev (User_findOne (sender orig))"
      and req: "r_emailId req = Id n"
      and orig: "find (\<lambda>e. email_id e = n) (emails w) = Some orig"
      and ru: "findVerified (users w) (sender orig) = Some ru"
  shows "\<exists>s c spam.
           emails w' = emails w @ [s, c] \<and>
           content s = replyDoc ev me orig req \<and>
           content c = receivedCopy (replyDoc ev me orig req) spam (sender orig) \<and>
           emitted w' =
             (if io ev
              then emitted w @ [\<lparr>channel = sender orig, n_sender = me,
                                  n_subject = ''Re: '' @ subject orig, n_sentAt = sentAt c,
                                  n_isSpam = Some spam\<rparr>]
              else emitted w)"
proof -
  let ?doc = "\<lambda>atts. (new_Email ev)
                \<lparr>sender := me, recipients := [sender orig],
                 subject := ''Re: '' @ subject orig,
                 body := templ (r_body req) @ ''<br><br>--- Original Message ---<br>'' @ body orig,
                 attachments := atts, folder := Sent\<rparr>"
  let ?copy = "\<lambda>atts spam spamLabel. (new_Email ev)
                   \<lparr>sender := me, recipients := [sender orig],
                    subject := ''Re: '' @ subject orig,
                    body := templ (r_body req) @ ''<br><br>--- Original Message ---<br>'' @ body orig,
                    attachments := atts,
                    folder := (if spam then Spam else Inbox), isSpam := spam,
                    labels := (case spamLabel of
                                 Some l \<Rightarrow> if spam then [label_id l] else []
                               | None \<Rightarrow> [])\<rparr>"
  let ?rest = "\<lambda>atts.
     andThen (classify ev (?doc atts) me) (\<lambda>spam.
     andThen (if spam then andThen (ensureSpamLabel ev (user_id ru)) (\<lambda>l. ret (Some l))
              else ret None) (\<lambda>spamLabel.
     andThen (save_email ev (?doc atts)) (\<lambda>_.
     andThen (save_email ev (?copy atts spam spamLabel)) (\<lambda>recipientInboxEmail.
     andThen (notify_unguarded ev
                \<lparr>channel = sender orig, n_sender = me,
                 n_subject = ''Re: '' @ subject orig,
                 n_sentAt = sentAt recipientInboxEmail, n_isSpam = Some spam\<rparr>) (\<lambda>_.
     ret (Ok_message ''Reply sent successfully''))))))"
  have "andThen (upload_all ev (r_files req)) ?rest w =
      (Inr (Ok_message ''Reply sent successfully''), w')"
    using run nf orig ru req
    by (simp add: reply_try_def andThen_def Email_find_by_id_def User_findOne_verified_def
        Let_def)
  from andThen_InrD[OF this] obtain atts w0 where
    up: "upload_all ev (r_files req) w = (Inr atts, w0)"
    and r1: "?rest atts w0 = (Inr (Ok_message ''Reply sent successfully''), w')"
    by blast
  have atts: "atts = map attachmentOf (r_files req)" and w0: "w0 = w"
    using upload_all_Inr[OF up] by simp_all
  from andThen_InrD[OF r1] obtain spam w1 where
    cl: "classify ev (?doc atts) me w0 = (Inr spam, w1)"
    and r2: "andThen (if spam then andThen (ensureSpamLabel ev (user_id ru)) (\<lambda>l. ret (Some l))
              else ret None) (\<lambda>spamLabel.
     andThen (save_email ev (?doc atts)) (\<lambda>_.
     andThen (save_email ev (?copy atts spam spamLabel)) (\<lambda>recipientInboxEmail.
     andThen (notify_unguarded ev
                \<lparr>channel = sender orig, n_sender = me,
                 n_subject = ''Re: '' @ subject orig,
                 n_sentAt = sentAt recipientInboxEmail, n_isSpam = Some spam\<rparr>) (\<lambda>_.
     ret (Ok_message ''Reply sent successfully''))))) w1 =
       (Inr (Ok_message ''Reply sent successfully''), w')"
    by blast
  from andThen_InrD[OF r2] obtain sl w2 where
    lb: "(if spam then andThen (ensureSpamLabel ev (user_id ru)) (\<lambda>l. ret (Some l))
              else ret None) w1 = (Inr sl, w2)"
    and r3: "andThen (save_email ev (?doc atts)) (\<lambda>_.
     andThen (save_email ev (?copy atts spam sl)) (\<lambda>recipientInboxEmail.
     andThen (notify_unguarded ev
                \<lparr>channel = sender orig, n_sender = me,
                 n_subject = ''Re: '' @ subject orig,
                 n_sentAt = sentAt recipientInboxEmail, n_isSpam = Some spam\<rparr>) (\<lambda>_.
     ret (Ok_message ''Reply sent successfully'')))) w2 =
       (Inr (Ok_message ''Reply sent successfully''), w')"
    by blast
  from andThen_InrD[OF r3] obtain s w3 where
    s1: "save_email ev (?doc atts) w2 = (Inr s, w3)"
    and r4: "andThen (save_email ev (?copy atts spam sl)) (\<lambda>recipientInboxEmail.
     andThen (notify_unguarded ev
                \<lparr>channel = sender orig, n_sender = me,
                 n_subject = ''Re: '' @ subject orig,
                 n_sentAt = sentAt recipientInboxEmail, n_isSpam = Some spam\<rparr>) (\<lambda>_.
     ret (Ok_message ''Reply sent successfully''))) w3 =
       (Inr (Ok_message ''Reply sent successfully''), w')"
    by blast
  from andThen_InrD[OF r4] obtain c w4 where
    s2: "save_email ev (?copy atts spam sl) w3 = (Inr c, w4)"
    and r5: "andThen (notify_unguarded ev
                \<lparr>channel = sender orig, n_sender = me,
                 n_subject = ''Re: '' @ subject orig,
                 n_sentAt = sentAt c, n_isSpam = Some spam\<rparr>) (\<lambda>_.
     ret (Ok_message ''Reply sent successfully'')) w4 =
       (Inr (Ok_message ''Reply sent successfully''), w')"
    by blast
  from andThen_InrD[OF r5] obtain x w5 where
    nt: "notify_unguarded ev
                \<lparr>channel = sender orig, n_sender = me,
                 n_subject = ''Re: '' @ subject orig,
                 n_sentAt = sentAt c, n_isSpam = Some spam\<rparr> w4 = (Inr x, w5)"
    and fin: "ret (Ok_message ''Reply sent successfully'') w5 =
       (Inr (Ok_message ''Reply sent successfully''), w')"
    by blast
  have w5: "w5 = w'"
    using fin by (simp add: ret_def)
  have e1: "emails w1 = emails w" "emitted w1 = emitted w"
    using classify_Inr(4)[OF cl] classify_emitted[OF cl] w0 by simp_all
  have e2: "emails w2 = emails w" "emitted w2 = emitted w"
    using reply_label_step[OF lb] e1 by simp_all
  have e3: "emails w3 = emails w @ [s]" "emitted w3 = emitted w"
    using save_email_Inr(2)[OF s1] save_email_emitted[OF s1] e2 by (simp_all add: grows_def)
  have e4: "emails w4 = emails w @ [s, c]" "emitted w4 = emitted w"
    using save_email_Inr(2)[OF s2] save_email_emitted[OF s2] e3 by (simp_all add: grows_def)
  have e5: "emails w' = emails w @ [s, c]"
    "emitted w' = (if io ev
              then emitted w @ [\<lparr>channel = sender orig, n_sender = me,
                                  n_subject = ''Re: '' @ subject orig, n_sentAt = sentAt c,
                                  n_isSpam = Some spam\<rparr>]
              else emitted w)"
    using notify_unguarded_Inr[OF nt] e4 w5 by simp_all
  have cs: "content s = replyDoc ev me orig req"
    using save_email_Inr(1)[OF s1] atts by (simp add: content_def new_Email_def replyDoc_def)
  have cc: "content c = receivedCopy (replyDoc ev me orig req) spam (sender orig)"
    using save_email_Inr(1)[OF s2] atts
    by (simp add: content_def new_Email_def replyDoc_def receivedCopy_def)
  from e5 cs cc show ?thesis
    by blast
qed

lemma forward_copy_Inr:
  assumes "forward_copy ev rus fwd spam a w = (Inr x, w')"
  shows "\<exists>c. emails w' = emails w @ [c] \<and>
             content c =
               (new_Email ev)
                 \<lparr>sender := sender fwd, recipients := [a], subject := subject fwd,
                  body := body fwd, attachments := attachments fwd,
                  folder := (if spam then Spam else Inbox), isSpam := spam\<rparr> \<and>
             emitted w' =
               (if io ev \<and> \<not> emit_fault ev a
                then emitted w @ [\<lparr>channel = a, n_sender = sender fwd, n_subject = subject fwd,
                                    n_sentAt = sentAt c, n_isSpam = Some spam\<rparr>]
                else emitted w)"
proof -
  let ?ru = "find (\<lambda>u. user_email u = Some a) rus"
  let ?doc = "\<lambda>spamLabel. (new_Email ev)
                       \<lparr>sender := sender fwd, recipients := [a],
                        subject := subject fwd, body := body fwd,
                        attachments := attachments fwd,
                        folder := (if spam then Spam else Inbox), isSpam := spam,
                        labels := (case spamLabel of
                                     Some l \<Rightarrow> if spam then [label_id l] else []
                                   | None \<Rightarrow> [])\<rparr>"
  from assms have "andThen (spamLabelFor ev spam ?ru) (\<lambda>spamLabel.
         andThen (save_email ev (?doc spamLabel)) (\<lambda>recipientInboxEmail w.
           (Inr (),
            notify ev \<lparr>channel = a, n_sender = sender fwd,
                       n_subject = subject fwd,
                       n_sentAt = sentAt recipientInboxEmail, n_isSpam = Some spam\<rparr> w))) w
      = (Inr x, w')"
    unfolding forward_copy_def Let_def .
  from andThen_InrD[OF this] obtain sl w1 where
    l: "spamLabelFor ev spam ?ru w = (Inr sl, w1)"
    and rest: "andThen (save_email ev (?doc sl)) (\<lambda>recipientInboxEmail w.
           (Inr (),
            notify ev \<lparr>channel = a, n_sender = sender fwd,
                       n_subject = subject fwd,
                       n_sentAt = sentAt recipientInboxEmail, n_isSpam = Some spam\<rparr> w)) w1
      = (Inr x, w')"
    by blast
  from andThen_InrD[OF rest] obtain c w2 where
    sv: "save_email ev (?doc sl) w1 = (Inr c, w2)"
    and n: "(Inr (), notify ev \<lparr>channel = a, n_sender = sender fwd,
                       n_subject = subject fwd,
                       n_sentAt = sentAt c, n_isSpam = Some spam\<rparr> w2) = (Inr x, w')"
    by blast
  have e1: "emails w1 = emails w" "emitted w1 = emitted w"
    using spamLabelFor_grows[OF l] spamLabelFor_emitted[OF l] by (simp_all add: grows_def)
  have e2: "emails w2 = emails w @ [c]" "emitted w2 = emitted w"
    using save_email_Inr(2)[OF sv] save_email_emitted[OF sv] e1 by (simp_all add: grows_def)
  have w': "w' = notify ev \<lparr>channel = a, n_sender = sender fwd, n_subject = subject fwd,
                       n_sentAt = sentAt c, n_isSpam = Some spam\<rparr> w2"
    using n by simp
  have cc: "content c =
               (new_Email ev)
                 \<lparr>sender := sender fwd, recipients := [a], subject := subject fwd,
                  body := body fwd, attachments := attachments fwd,
                  folder := (if spam then Spam else Inbox), isSpam := spam\<rparr>"
    using save_email_Inr(1)[OF sv]
    by (simp add: content_def new_Email_def)
  show ?thesis
    using e2 cc unfolding w' by (simp add: notify_effect)
qed


lemma forward_loop_Inr:
  "for_each (forward_copy ev rus fwd spam) as w = (Inr x, w') \<Longrightarrow>
   \<exists>new ns.
     emails w' = emails w @ new \<and>
     map content new =
       map (\<lambda>a. (new_Email ev)
                   \<lparr>sender := sender fwd, recipients := [a], subject := subject fwd,
                    body := body fwd, attachments := attachments fwd,
                    folder := (if spam then Spam else Inbox), isSpam := spam\<rparr>) as \<and>
     emitted w' = emitted w @ ns \<and>
     (io ev \<and> (\<forall>a \<in> set as. \<not> emit_fault ev a) \<longrightarrow>
        map channel ns = as \<and> (\<forall>n \<in> set ns. n_sender n = sender fwd \<and>
                                  n_subject n = subject fwd \<and> n_isSpam n = Some spam))"
proof (induction as arbitrary: w)
  case Nil
  then show ?case by (simp add: ret_def)
next
  case (Cons a as)
  from andThen_InrD[OF Cons.prems[unfolded for_each.simps]] obtain y w1 where
    d: "forward_copy ev rus fwd spam a w = (Inr y, w1)"
    and l: "for_each (forward_copy ev rus fwd spam) as w1 = (Inr x, w')"
    by blast
  from forward_copy_Inr[OF d] obtain c where
    e1: "emails w1 = emails w @ [c]"
    and c1: "content c =
               (new_Email ev)
                 \<lparr>sender := sender fwd, recipients := [a], subject := subject fwd,
                  body := body fwd, attachments := attachments fwd,
                  folder := (if spam then Spam else Inbox), isSpam := spam\<rparr>"
    and n1: "emitted w1 =
               (if io ev \<and> \<not> emit_fault ev a
                then emitted w @ [\<lparr>channel = a, n_sender = sender fwd, n_subject = subject fwd,
                                    n_sentAt = sentAt c, n_isSpam = Some spam\<rparr>]
                else emitted w)"
    by blast
  from Cons.IH[OF l] obtain new ns where
    e2: "emails w' = emails w1 @ new"
    and c2: "map content new =
       map (\<lambda>a. (new_Email ev)
                   \<lparr>sender := sender fwd, recipients := [a], subject := subject fwd,
                    body := body fwd, attachments := attachments fwd,
                    folder := (if spam then Spam else Inbox), isSpam := spam\<rparr>) as"
    and n2: "emitted w' = emitted w1 @ ns"
    and n3: "io ev \<and> (\<forall>a \<in> set as. \<not> emit_fault ev a) \<longrightarrow>
        map channel ns = as \<and> (\<forall>n \<in> set ns. n_sender n = sender fwd \<and>
                                  n_subject n = subject fwd \<and> n_isSpam n = Some spam)"
    by blast
  let ?ns = "(if io ev \<and> \<not> emit_fault ev a
              then [\<lparr>channel = a, n_sender = sender fwd, n_subject = subject fwd,
                      n_sentAt = sentAt c, n_isSpam = Some spam\<rparr>] else []) @ ns"
  have "emails w' = emails w @ (c # new)"
    using e1 e2 by simp
  moreover have "map content (c # new) =
       map (\<lambda>a. (new_Email ev)
                   \<lparr>sender := sender fwd, recipients := [a], subject := subject fwd,
                    body := body fwd, attachments := attachments fwd,
                    folder := (if spam then Spam else Inbox), isSpam := spam\<rparr>) (a # as)"
    using c1 c2 by simp
  moreover have "emitted w' = emitted w @ ?ns"
    using n1 n2 by simp
  moreover have "io ev \<and> (\<forall>b \<in> set (a # as). \<not> emit_fault ev b) \<longrightarrow>
        map channel ?ns = a # as \<and> (\<forall>n \<in> set ?ns. n_sender n = sender fwd \<and>
                                  n_subject n = subject fwd \<and> n_isSpam n = Some spam)"
    using n3 by auto
  ultimately show ?case
    by (intro exI[of _ "c # new"] exI[of _ ?ns] conjI)
qed


lemma forward_try_Ok:
  assumes run: "forward_try ev me req rs w =
                  (Inr (Ok_message ''Email forwarded successfully''), w')"
      and nf: "\<not> fault ev Email_findById"
      and req: "f_emailId req = Id n"
      and orig: "find (\<lambda>e. email_id e = n) (emails w) = Some orig"
  shows "\<exists>s copies ns spam.
           emails w' = emails w @ s # copies \<and>
           content s = forwardDoc ev me orig req (map templ rs) \<and>
           map content copies =
             map (receivedCopy (forwardDoc ev me orig req (map templ rs)) spam) (map templ rs) \<and>
           emitted w' = emitted w @ ns \<and>
           (io ev \<and> (\<forall>a \<in> set (map templ rs). \<not> emit_fault ev a) \<longrightarrow>
              map channel ns = map templ rs \<and>
              (\<forall>n \<in> set ns. n_sender n = me \<and> n_subject n = ''Fwd: '' @ subject orig \<and>
                              n_isSpam n = Some spam))"
proof -
  let ?fd = "forwardDoc ev me orig req (map templ rs)"
  let ?doc = "\<lambda>atts. (new_Email ev)
                \<lparr>sender := me, recipients := map templ rs,
                 subject := ''Fwd: '' @ subject orig,
                 body := (if truthy (f_body req) then templ (f_body req) else []) @
                         ''<br><br>--- Forwarded Message ---<br>'' @ body orig,
                 attachments := attachments orig @ atts, folder := Sent\<rparr>"
  let ?rus = "verifiedAmong (users w) (strings rs)"
  let ?rest = "\<lambda>atts.
     andThen (classify ev (?doc atts) me) (\<lambda>spam.
     andThen (save_email ev (?doc atts)) (\<lambda>saved.
     andThen (for_each (forward_copy ev ?rus saved spam) (map templ rs)) (\<lambda>_.
     ret (Ok_message ''Email forwarded successfully''))))"
  have "andThen (upload_all ev (f_files req)) ?rest w =
      (Inr (Ok_message ''Email forwarded successfully''), w')"
    using run nf orig req
    by (auto simp: forward_try_def andThen_def Email_find_by_id_def User_find_verified_def
        Let_def ret_def split: if_splits)
  from andThen_InrD[OF this] obtain atts w0 where
    up: "upload_all ev (f_files req) w = (Inr atts, w0)"
    and r1: "?rest atts w0 = (Inr (Ok_message ''Email forwarded successfully''), w')"
    by blast
  have atts: "atts = map attachmentOf (f_files req)" and w0: "w0 = w"
    using upload_all_Inr[OF up] by simp_all
  from andThen_InrD[OF r1] obtain spam w1 where
    cl: "classify ev (?doc atts) me w0 = (Inr spam, w1)"
    and r2: "andThen (save_email ev (?doc atts)) (\<lambda>saved.
     andThen (for_each (forward_copy ev ?rus saved spam) (map templ rs)) (\<lambda>_.
     ret (Ok_message ''Email forwarded successfully''))) w1 =
       (Inr (Ok_message ''Email forwarded successfully''), w')"
    by blast
  from andThen_InrD[OF r2] obtain s w2 where
    sv: "save_email ev (?doc atts) w1 = (Inr s, w2)"
    and r3: "andThen (for_each (forward_copy ev ?rus s spam) (map templ rs)) (\<lambda>_.
     ret (Ok_message ''Email forwarded successfully'')) w2 =
       (Inr (Ok_message ''Email forwarded successfully''), w')"
    by blast
  from andThen_InrD[OF r3] obtain x w3 where
    lp: "for_each (forward_copy ev ?rus s spam) (map templ rs) w2 = (Inr x, w3)"
    and fin: "ret (Ok_message ''Email forwarded successfully'') w3 =
       (Inr (Ok_message ''Email forwarded successfully''), w')"
    by blast
  have w3: "w3 = w'"
    using fin by (simp add: ret_def)
  have e1: "emails w1 = emails w" "emitted w1 = emitted w"
    using classify_Inr(4)[OF cl] classify_emitted[OF cl] w0 by simp_all
  have e2: "emails w2 = emails w @ [s]" "emitted w2 = emitted w"
    using save_email_Inr(2)[OF sv] save_email_emitted[OF sv] e1 by (simp_all add: grows_def)
  have s: "s = (?doc atts)\<lparr>email_id := next_id w1\<rparr>"
    using save_email_Inr(1)[OF sv] .
  have cs: "content s = ?fd"
    unfolding s atts by (simp add: content_def new_Email_def forwardDoc_def)
  have flds: "sender s = me" "subject s = ''Fwd: '' @ subject orig"
    unfolding s by simp_all
  have copy: "(new_Email ev)
                   \<lparr>sender := sender s, recipients := [a], subject := subject s,
                    body := body s, attachments := attachments s,
                    folder := (if spam then Spam else Inbox), isSpam := spam\<rparr> =
      receivedCopy ?fd spam a" for a
    unfolding s atts by (simp add: new_Email_def forwardDoc_def receivedCopy_def)
  from forward_loop_Inr[OF lp] obtain new ns where
    e3: "emails w3 = emails w2 @ new"
    and c3: "map content new = map (receivedCopy ?fd spam) (map templ rs)"
    and n3: "emitted w3 = emitted w2 @ ns"
    and n4: "io ev \<and> (\<forall>a \<in> set (map templ rs). \<not> emit_fault ev a) \<longrightarrow>
        map channel ns = map templ rs \<and> (\<forall>n \<in> set ns. n_sender n = sender s \<and>
                                  n_subject n = subject s \<and> n_isSpam n = Some spam)"
    unfolding copy by blast
  have "emails w' = emails w @ s # new" and "emitted w' = emitted w @ ns"
    using e2 e3 n3 w3 by simp_all
  with cs c3 n4 flds show ?thesis
    by (intro exI[of _ s] exI[of _ new] exI[of _ ns] exI[of _ spam]) simp
qed

section \<open>The operations that do ask\<close>

lemma updateOne_None: "find P xs = None \<Longrightarrow> updateOne P f xs = None"
  by (induction xs) (auto split: if_splits)

lemma findOneAndUpdate_None: "find P xs = None \<Longrightarrow> findOneAndUpdate P f xs = None"
  by (induction xs) (auto split: if_splits)

lemma deleteOne_None: "find P xs = None \<Longrightarrow> deleteOne P xs = None"
  by (induction xs) (auto split: if_splits)

lemma non_participant_refused:
  assumes a: "authenticated ev t w u me"
      and nf: "\<forall>op. \<not> fault ev op"
      and none: "find (\<lambda>e. email_id e = n \<and> participant me e) (emails w) = None"
  shows "get_email ev t (Id n) w = (Error_json 404 ''Email not found or unauthorized'', w)"
    and "mark_read ev t (Id n) (JBool b) w =
           (Error_json 404 ''Email not found or unauthorized'', w)"
    and "star ev t (Id n) (JBool b) w =
           (Error_json 404 ''Email not found or you are not authorized to modify it'', w)"
    and "move_to_trash ev t (Id n) w = (Error_json 404 ''Email not found or unauthorized'', w)"
    and "delete_email ev t (Id n) w =
           (Error_json 404 ''Email not found or you are not authorized to delete it'', w)"
proof -
  show "get_email ev t (Id n) w = (Error_json 404 ''Email not found or unauthorized'', w)"
    unfolding get_email_def guarded_authenticated[OF a] catch500_def get_email_try_def
    using nf none by simp
  show "mark_read ev t (Id n) (JBool b) w =
           (Error_json 404 ''Email not found or unauthorized'', w)"
    unfolding mark_read_def guarded_authenticated[OF a] catch500_def mark_read_try_def
    using nf updateOne_None[OF none] by simp
  show "star ev t (Id n) (JBool b) w =
           (Error_json 404 ''Email not found or you are not authorized to modify it'', w)"
    unfolding star_def guarded_authenticated[OF a] catch500_def star_try_def
    using nf findOneAndUpdate_None[OF none] by simp
  show "move_to_trash ev t (Id n) w = (Error_json 404 ''Email not found or unauthorized'', w)"
    unfolding move_to_trash_def guarded_authenticated[OF a] catch500_def move_to_trash_try_def
    using nf updateOne_None[OF none] by simp
  show "delete_email ev t (Id n) w =
           (Error_json 404 ''Email not found or you are not authorized to delete it'', w)"
    unfolding delete_email_def guarded_authenticated[OF a] catch500_def delete_email_try_def
    using nf deleteOne_None[OF none] by simp
qed


text \<open>
  \<^bold>\<open>C10.\<close> Reply and forward look the original message up by its id alone. A caller who
  passes the middleware and names an existing message whose sender is a verified user gets
  the reply through, the collaborators answering, whoever the caller is: nothing in the
  statement asks that the caller be sender or recipient of the message. The reply is built
  from the message found, stored as the caller's sent copy and as a copy for the sender of
  the original, and announced to that sender. The same holds for forwarding to verified
  recipients: the message found is stored as the caller's sent copy and as one copy per
  recipient, each of them announced. Reading, marking as read, starring, moving to trash and
  deleting the same message are refused with status 404, and change nothing, for a caller
  who has no part in it.
\<close>

theorem reply_ignores_membership:
  assumes "authenticated ev t w u me"
      and "\<forall>op. \<not> fault ev op"
      and "find (\<lambda>e. email_id e = n) (emails w) = Some orig"
  shows "(r_emailId rq = Id n \<and> findVerified (users w) (sender orig) = Some ru \<and>
          \<not> emit_fault ev (sender orig) \<longrightarrow>
            (\<exists>w' s c spam.
               reply ev t rq w = (Ok_message ''Reply sent successfully'', w') \<and>
               emails w' = emails w @ [s, c] \<and>
               content s = replyDoc ev me orig rq \<and>
               content c = receivedCopy (replyDoc ev me orig rq) spam (sender orig) \<and>
               emitted w' =
                 (if io ev
                  then emitted w @ [\<lparr>channel = sender orig, n_sender = me,
                                      n_subject = ''Re: '' @ subject orig, n_sentAt = sentAt c,
                                      n_isSpam = Some spam\<rparr>]
                  else emitted w))) \<and>
         (f_emailId fq = Id n \<and> f_recipients fq = JArr rs \<and> rs \<noteq> [] \<and>
          length (verifiedAmong (users w) (strings rs)) = length rs \<longrightarrow>
            (\<exists>w' s copies ns spam.
               forward ev t fq w = (Ok_message ''Email forwarded successfully'', w') \<and>
               emails w' = emails w @ s # copies \<and>
               content s = forwardDoc ev me orig fq (map templ rs) \<and>
               map content copies =
                 map (receivedCopy (forwardDoc ev me orig fq (map templ rs)) spam)
                   (map templ rs) \<and>
               emitted w' = emitted w @ ns \<and>
               (io ev \<and> (\<forall>a \<in> set (map templ rs). \<not> emit_fault ev a) \<longrightarrow>
                  map channel ns = map templ rs \<and>
                  (\<forall>n \<in> set ns. n_sender n = me \<and>
                                  n_subject n = ''Fwd: '' @ subject orig \<and>
                                  n_isSpam n = Some spam)))) \<and>
         (\<not> participant me orig \<and> (\<forall>e \<in> set (emails w). email_id e = n \<longrightarrow> e = orig) \<longrightarrow>
            get_email ev t (Id n) w = (Error_json 404 ''Email not found or unauthorized'', w) \<and>
            mark_read ev t (Id n) (JBool b) w =
              (Error_json 404 ''Email not found or unauthorized'', w) \<and>
            star ev t (Id n) (JBool b) w =
              (Error_json 404 ''Email not found or you are not authorized to modify it'', w) \<and>
            move_to_trash ev t (Id n) w =
              (Error_json 404 ''Email not found or unauthorized'', w) \<and>
            delete_email ev t (Id n) w =
              (Error_json 404 ''Email not found or you are not authorized to delete it'', w))"
proof (intro conjI)
  have nf1: "\<not> fault ev Email_findById" and nf2: "\<not> fault ev (User_findOne (sender orig))"
    using assms(2) by simp_all
  show "r_emailId rq = Id n \<and> findVerified (users w) (sender orig) = Some ru \<and>
          \<not> emit_fault ev (sender orig) \<longrightarrow>
            (\<exists>w' s c spam.
               reply ev t rq w = (Ok_message ''Reply sent successfully'', w') \<and>
               emails w' = emails w @ [s, c] \<and>
               content s = replyDoc ev me orig rq \<and>
               content c = receivedCopy (replyDoc ev me orig rq) spam (sender orig) \<and>
               emitted w' =
                 (if io ev
                  then emitted w @ [\<lparr>channel = sender orig, n_sender = me,
                                      n_subject = ''Re: '' @ subject orig, n_sentAt = sentAt c,
                                      n_isSpam = Some spam\<rparr>]
                  else emitted w))"
  proof (intro impI, elim conjE)
    assume i: "r_emailId rq = Id n" and ru: "findVerified (users w) (sender orig) = Some ru"
      and em: "\<not> emit_fault ev (sender orig)"
    from reply_try_returns[OF assms(2) em assms(3) ru i, of me] obtain w' where
      run: "reply_try ev me rq w = (Inr (Ok_message ''Reply sent successfully''), w')"
      by blast
    have r: "reply ev t rq w = (Ok_message ''Reply sent successfully'', w')"
      unfolding reply_def guarded_authenticated[OF assms(1)] catch500_def using run by simp
    from reply_try_Ok[OF run nf1 nf2 i assms(3) ru] r show "\<exists>w' s c spam.
               reply ev t rq w = (Ok_message ''Reply sent successfully'', w') \<and>
               emails w' = emails w @ [s, c] \<and>
               content s = replyDoc ev me orig rq \<and>
               content c = receivedCopy (replyDoc ev me orig rq) spam (sender orig) \<and>
               emitted w' =
                 (if io ev
                  then emitted w @ [\<lparr>channel = sender orig, n_sender = me,
                                      n_subject = ''Re: '' @ subject orig, n_sentAt = sentAt c,
                                      n_isSpam = Some spam\<rparr>]
                  else emitted w)"
      by blast
  qed
  show "f_emailId fq = Id n \<and> f_recipients fq = JArr rs \<and> rs \<noteq> [] \<and>
          length (verifiedAmong (users w) (strings rs)) = length rs \<longrightarrow>
            (\<exists>w' s copies ns spam.
               forward ev t fq w = (Ok_message ''Email forwarded successfully'', w') \<and>
               emails w' = emails w @ s # copies \<and>
               content s = forwardDoc ev me orig fq (map templ rs) \<and>
               map content copies =
                 map (receivedCopy (forwardDoc ev me orig fq (map templ rs)) spam)
                   (map templ rs) \<and>
               emitted w' = emitted w @ ns \<and>
               (io ev \<and> (\<forall>a \<in> set (map templ rs). \<not> emit_fault ev a) \<longrightarrow>
                  map channel ns = map templ rs \<and>
                  (\<forall>n \<in> set ns. n_sender n = me \<and>
                                  n_subject n = ''Fwd: '' @ subject orig \<and>
                                  n_isSpam n = Some spam)))"
  proof (intro impI, elim conjE)
    assume i: "f_emailId fq = Id n" and r: "f_recipients fq = JArr rs" and ne: "rs \<noteq> []"
      and cnt: "length (verifiedAmong (users w) (strings rs)) = length rs"
    from forward_try_returns[OF assms(2,3) cnt i, of me] obtain w' where
      run: "forward_try ev me fq rs w = (Inr (Ok_message ''Email forwarded successfully''), w')"
      by blast
    have f: "forward ev t fq w = (Ok_message ''Email forwarded successfully'', w')"
      unfolding forward_def guarded_authenticated[OF assms(1)] forward_handler_def catch500_def
      using run r ne by simp
    from forward_try_Ok[OF run nf1 i assms(3)] f show "\<exists>w' s copies ns spam.
               forward ev t fq w = (Ok_message ''Email forwarded successfully'', w') \<and>
               emails w' = emails w @ s # copies \<and>
               content s = forwardDoc ev me orig fq (map templ rs) \<and>
               map content copies =
                 map (receivedCopy (forwardDoc ev me orig fq (map templ rs)) spam)
                   (map templ rs) \<and>
               emitted w' = emitted w @ ns \<and>
               (io ev \<and> (\<forall>a \<in> set (map templ rs). \<not> emit_fault ev a) \<longrightarrow>
                  map channel ns = map templ rs \<and>
                  (\<forall>n \<in> set ns. n_sender n = me \<and>
                                  n_subject n = ''Fwd: '' @ subject orig \<and>
                                  n_isSpam n = Some spam))"
      by blast
  qed
  show "\<not> participant me orig \<and> (\<forall>e \<in> set (emails w). email_id e = n \<longrightarrow> e = orig) \<longrightarrow>
            get_email ev t (Id n) w = (Error_json 404 ''Email not found or unauthorized'', w) \<and>
            mark_read ev t (Id n) (JBool b) w =
              (Error_json 404 ''Email not found or unauthorized'', w) \<and>
            star ev t (Id n) (JBool b) w =
              (Error_json 404 ''Email not found or you are not authorized to modify it'', w) \<and>
            move_to_trash ev t (Id n) w =
              (Error_json 404 ''Email not found or unauthorized'', w) \<and>
            delete_email ev t (Id n) w =
              (Error_json 404 ''Email not found or you are not authorized to delete it'', w)"
  proof (intro impI, elim conjE)
    assume np: "\<not> participant me orig"
      and uniq: "\<forall>e \<in> set (emails w). email_id e = n \<longrightarrow> e = orig"
    have none: "find (\<lambda>e. email_id e = n \<and> participant me e) (emails w) = None"
      using find_conj_None[where P = "\<lambda>e. email_id e = n" and Q = "participant me",
          OF assms(3) uniq np] .
    from non_participant_refused[OF assms(1,2) none]
    show "get_email ev t (Id n) w = (Error_json 404 ''Email not found or unauthorized'', w) \<and>
            mark_read ev t (Id n) (JBool b) w =
              (Error_json 404 ''Email not found or unauthorized'', w) \<and>
            star ev t (Id n) (JBool b) w =
              (Error_json 404 ''Email not found or you are not authorized to modify it'', w) \<and>
            move_to_trash ev t (Id n) w =
              (Error_json 404 ''Email not found or unauthorized'', w) \<and>
            delete_email ev t (Id n) w =
              (Error_json 404 ''Email not found or you are not authorized to delete it'', w)"
      by simp
  qed
qed

theorem reply_ignores_membership_witness:
  "fst (reply ev_ok (TokenFor 1) \<lparr>r_emailId = Id 60, r_body = JStr ''hi'', r_files = []\<rparr>
          world_ab) = Ok_message ''Reply sent successfully'' \<and>
   map recipients (emails (snd (reply ev_ok (TokenFor 1)
          \<lparr>r_emailId = Id 60, r_body = JStr ''hi'', r_files = []\<rparr> world_ab))) =
     [[''b@x.com''], [''a@x.com''], [''a@x.com'']] \<and>
   map channel (emitted (snd (reply ev_ok (TokenFor 1)
          \<lparr>r_emailId = Id 60, r_body = JStr ''hi'', r_files = []\<rparr> world_ab))) = [''a@x.com''] \<and>
   fst (forward ev_ok (TokenFor 1)
          \<lparr>f_emailId = Id 60, f_recipients = JArr [JStr ''b@x.com''], f_body = JUndefined,
           f_files = []\<rparr> world_ab) = Ok_message ''Email forwarded successfully'' \<and>
   map recipients (emails (snd (forward ev_ok (TokenFor 1)
          \<lparr>f_emailId = Id 60, f_recipients = JArr [JStr ''b@x.com''], f_body = JUndefined,
           f_files = []\<rparr> world_ab))) = [[''b@x.com''], [''b@x.com''], [''b@x.com'']] \<and>
   map channel (emitted (snd (forward ev_ok (TokenFor 1)
          \<lparr>f_emailId = Id 60, f_recipients = JArr [JStr ''b@x.com''], f_body = JUndefined,
           f_files = []\<rparr> world_ab))) = [''b@x.com''] \<and>
   get_email ev_ok (TokenFor 1) (Id 60) world_ab =
     (Error_json 404 ''Email not found or unauthorized'', world_ab) \<and>
   mark_read ev_ok (TokenFor 1) (Id 60) (JBool True) world_ab =
     (Error_json 404 ''Email not found or unauthorized'', world_ab) \<and>
   star ev_ok (TokenFor 1) (Id 60) (JBool True) world_ab =
     (Error_json 404 ''Email not found or you are not authorized to modify it'', world_ab) \<and>
   move_to_trash ev_ok (TokenFor 1) (Id 60) world_ab =
     (Error_json 404 ''Email not found or unauthorized'', world_ab) \<and>
   delete_email ev_ok (TokenFor 1) (Id 60) world_ab =
     (Error_json 404 ''Email not found or you are not authorized to delete it'', world_ab)"
proof -
  let ?orig = "(new_Email ev_ok)
                 \<lparr>email_id := 60, sender := ''a@x.com'', recipients := [''b@x.com''],
                  subject := ''Plan'', body := ''as agreed''\<rparr>"
  let ?rq = "\<lparr>r_emailId = Id 60, r_body = JStr ''hi'', r_files = []\<rparr>"
  let ?fq = "\<lparr>f_emailId = Id 60, f_recipients = JArr [JStr ''b@x.com''],
              f_body = JUndefined, f_files = []\<rparr>"
  have a: "authenticated ev_ok (TokenFor 1) world_ab user_s ''s@x.com''"
    by (simp add: authenticated_def authenticateToken_def ensureEmailVerified_def ev_ok_def
        world_ab_def world0_def user_s_def)
  have nf: "\<forall>op. \<not> fault ev_ok op"
    by (simp add: ev_ok_def)
  have orig: "find (\<lambda>e. email_id e = 60) (emails world_ab) = Some ?orig"
    by (simp add: world_ab_def)
  have ru: "findVerified (users world_ab) (sender ?orig) = Some user_a"
    by (simp add: world_ab_def world0_def findVerified_def user_s_def user_a_def)
  have emit: "\<not> emit_fault ev_ok (sender ?orig)"
    by (simp add: ev_ok_def)
  have cnt: "length (verifiedAmong (users world_ab) (strings [JStr ''b@x.com''])) =
      length [JStr ''b@x.com'']"
    by (simp add: world_ab_def world0_def verifiedAmong_def user_s_def user_a_def user_b_def)
  have np: "\<not> participant ''s@x.com'' ?orig"
    by (simp add: participant_def new_Email_def)
  have uniq: "\<forall>e \<in> set (emails world_ab). email_id e = 60 \<longrightarrow> e = ?orig"
    by (simp add: world_ab_def)
  have io: "io ev_ok" "\<And>a. \<not> emit_fault ev_ok a"
    by (simp_all add: ev_ok_def)
  have rc: "recipients (content e) = recipients e" for e
    by (simp add: content_def)
  note th = reply_ignores_membership[OF a nf orig,
        where rq = ?rq and fq = ?fq and rs = "[JStr ''b@x.com'']" and ru = user_a and b = True]
  have "\<exists>w' s c spam.
               reply ev_ok (TokenFor 1) ?rq world_ab =
                 (Ok_message ''Reply sent successfully'', w') \<and>
               emails w' = emails world_ab @ [s, c] \<and>
               content s = replyDoc ev_ok ''s@x.com'' ?orig ?rq \<and>
               content c = receivedCopy (replyDoc ev_ok ''s@x.com'' ?orig ?rq) spam (sender ?orig) \<and>
               emitted w' =
                 (if io ev_ok
                  then emitted world_ab @ [\<lparr>channel = sender ?orig, n_sender = ''s@x.com'',
                                      n_subject = ''Re: '' @ subject ?orig, n_sentAt = sentAt c,
                                      n_isSpam = Some spam\<rparr>]
                  else emitted world_ab)"
    by (rule mp[OF th[THEN conjunct1]]) (use ru emit in simp)
  then obtain w1 s1 c1 spam1 where
    r1: "reply ev_ok (TokenFor 1) ?rq world_ab = (Ok_message ''Reply sent successfully'', w1)"
    and r2: "emails w1 = emails world_ab @ [s1, c1]"
    and r3: "content s1 = replyDoc ev_ok ''s@x.com'' ?orig ?rq"
    and r4: "content c1 = receivedCopy (replyDoc ev_ok ''s@x.com'' ?orig ?rq) spam1 (sender ?orig)"
    and r5: "emitted w1 = (if io ev_ok
                  then emitted world_ab @ [\<lparr>channel = sender ?orig, n_sender = ''s@x.com'',
                                      n_subject = ''Re: '' @ subject ?orig, n_sentAt = sentAt c1,
                                      n_isSpam = Some spam1\<rparr>]
                  else emitted world_ab)"
    by blast
  have rs1: "recipients s1 = [''a@x.com'']"
    using arg_cong[OF r3, of recipients] unfolding rc by (simp add: replyDoc_def)
  have rc1: "recipients c1 = [''a@x.com'']"
    using arg_cong[OF r4, of recipients] unfolding rc by (simp add: receivedCopy_def)
  have reply_part:
    "fst (reply ev_ok (TokenFor 1) ?rq world_ab) = Ok_message ''Reply sent successfully''"
    "map recipients (emails (snd (reply ev_ok (TokenFor 1) ?rq world_ab))) =
       [[''b@x.com''], [''a@x.com''], [''a@x.com'']]"
    "map channel (emitted (snd (reply ev_ok (TokenFor 1) ?rq world_ab))) = [''a@x.com'']"
    unfolding r1 using r2 r5 rs1 rc1 io by (simp_all add: world_ab_def world0_def)
  have "\<exists>w' s copies ns spam.
               forward ev_ok (TokenFor 1) ?fq world_ab =
                 (Ok_message ''Email forwarded successfully'', w') \<and>
               emails w' = emails world_ab @ s # copies \<and>
               content s = forwardDoc ev_ok ''s@x.com'' ?orig ?fq (map templ [JStr ''b@x.com'']) \<and>
               map content copies =
                 map (receivedCopy (forwardDoc ev_ok ''s@x.com'' ?orig ?fq
                                      (map templ [JStr ''b@x.com''])) spam)
                   (map templ [JStr ''b@x.com'']) \<and>
               emitted w' = emitted world_ab @ ns \<and>
               (io ev_ok \<and> (\<forall>a \<in> set (map templ [JStr ''b@x.com'']). \<not> emit_fault ev_ok a) \<longrightarrow>
                  map channel ns = map templ [JStr ''b@x.com''] \<and>
                  (\<forall>n \<in> set ns. n_sender n = ''s@x.com'' \<and>
                                  n_subject n = ''Fwd: '' @ subject ?orig \<and>
                                  n_isSpam n = Some spam))"
    by (rule mp[OF th[THEN conjunct2, THEN conjunct1]]) (use cnt in simp)
  then obtain w2 s2 copies ns spam2 where
    f1: "forward ev_ok (TokenFor 1) ?fq world_ab =
           (Ok_message ''Email forwarded successfully'', w2)"
    and f2: "emails w2 = emails world_ab @ s2 # copies"
    and f3: "content s2 = forwardDoc ev_ok ''s@x.com'' ?orig ?fq (map templ [JStr ''b@x.com''])"
    and f4: "map content copies =
        map (receivedCopy (forwardDoc ev_ok ''s@x.com'' ?orig ?fq (map templ [JStr ''b@x.com'']))
               spam2) (map templ [JStr ''b@x.com''])"
    and f5: "emitted w2 = emitted world_ab @ ns"
    and f6': "io ev_ok \<and> (\<forall>a \<in> set (map templ [JStr ''b@x.com'']). \<not> emit_fault ev_ok a) \<longrightarrow>
                  map channel ns = map templ [JStr ''b@x.com''] \<and>
                  (\<forall>n \<in> set ns. n_sender n = ''s@x.com'' \<and>
                                  n_subject n = ''Fwd: '' @ subject ?orig \<and>
                                  n_isSpam n = Some spam2)"
    by blast
  have f6: "map channel ns = map templ [JStr ''b@x.com'']"
    using f6' io by simp
  have fs2: "recipients s2 = [''b@x.com'']"
    using arg_cong[OF f3, of recipients] unfolding rc by (simp add: forwardDoc_def)
  have "map recipients (map content copies) = [[''b@x.com'']]"
    unfolding f4 by (simp add: receivedCopy_def)
  then have fc: "map recipients copies = [[''b@x.com'']]"
    by (simp add: o_def rc)
  have forward_part:
    "fst (forward ev_ok (TokenFor 1) ?fq world_ab) = Ok_message ''Email forwarded successfully''"
    "map recipients (emails (snd (forward ev_ok (TokenFor 1) ?fq world_ab))) =
       [[''b@x.com''], [''b@x.com''], [''b@x.com'']]"
    "map channel (emitted (snd (forward ev_ok (TokenFor 1) ?fq world_ab))) = [''b@x.com'']"
    unfolding f1 using f2 f5 f6 fs2 fc by (simp_all add: world_ab_def world0_def)
  from mp[OF th[THEN conjunct2, THEN conjunct2], OF conjI[OF np uniq]] have refused:
    "get_email ev_ok (TokenFor 1) (Id 60) world_ab =
       (Error_json 404 ''Email not found or unauthorized'', world_ab)"
    "mark_read ev_ok (TokenFor 1) (Id 60) (JBool True) world_ab =
       (Error_json 404 ''Email not found or unauthorized'', world_ab)"
    "star ev_ok (TokenFor 1) (Id 60) (JBool True) world_ab =
       (Error_json 404 ''Email not found or you are not authorized to modify it'', world_ab)"
    "move_to_trash ev_ok (TokenFor 1) (Id 60) world_ab =
       (Error_json 404 ''Email not found or unauthorized'', world_ab)"
    "delete_email ev_ok (TokenFor 1) (Id 60) world_ab =
       (Error_json 404 ''Email not found or you are not authorized to delete it'', world_ab)"
    by blast+
  from reply_part forward_part refused show ?thesis
    by (intro conjI)
qed

section \<open>A successful /send\<close>

lemma catch500_Ok:
  "catch500 tag m w = (Ok_message s, w') \<Longrightarrow> m w = (Inr (Ok_message s), w')"
  by (auto simp: catch500_def split: prod.splits sum.splits)

lemma send_handler_Ok:
  assumes "send_handler ev req me w = (Ok_message ''Email sent successfully'', w')"
  shows "send_try ev me (To_of ev req) (Cc_of ev req) (Bcc_of ev req)
           (stringOf (s_subject req)) (stringOf (s_body req)) (s_files req) w =
           (Inr (Ok_message ''Email sent successfully''), w')"
proof -
  from assms obtain tov ccv bccv where
    p: "parse_if_string ev (s_recipients req) = Some tov"
       "parse_if_string ev (s_cc req) = Some ccv"
       "parse_if_string ev (s_bcc req) = Some bccv"
    by (auto simp: send_handler_def split: option.splits)
  have lists: "To_of ev req = validStrings (elements tov)" "Cc_of ev req = filterOptional ccv"
    "Bcc_of ev req = filterOptional bccv"
    using p by (simp_all add: To_of_def Cc_of_def Bcc_of_def parsed_def)
  from assms have "catch500 ''Send email error''
      (send_try ev me (validStrings (elements tov)) (filterOptional ccv) (filterOptional bccv)
         (stringOf (s_subject req)) (stringOf (s_body req)) (s_files req)) w =
      (Ok_message ''Email sent successfully'', w')"
    unfolding send_handler_def p by (simp add: Let_def split: if_splits)
  from catch500_Ok[OF this] show ?thesis
    unfolding lists .
qed

lemma send_Ok:
  assumes "authenticated ev t w u me"
      and "send ev t req w = (Ok_message ''Email sent successfully'', w')"
  shows "send_try ev me (To_of ev req) (Cc_of ev req) (Bcc_of ev req)
           (stringOf (s_subject req)) (stringOf (s_body req)) (s_files req) w =
           (Inr (Ok_message ''Email sent successfully''), w')"
  using assms(2) unfolding send_def guarded_authenticated[OF assms(1)]
  by (rule send_handler_Ok)

lemma find_verifiedAmong:
  "a \<in> set allEmails \<Longrightarrow>
   find (\<lambda>u. user_email u = Some a) (verifiedAmong us allEmails) = findVerified us a"
  unfolding verifiedAmong_def findVerified_def
  by (induction us) (auto split: option.splits)

lemma autoReplyOf_verifiedAmong:
  assumes "a \<in> set allEmails"
  shows "autoReplyOf (verifiedAmong us allEmails) ars a = Some cfg \<longleftrightarrow>
           (\<exists>u. findVerified us a = Some u \<and>
                find (\<lambda>c. ar_userId c = user_id u) ars = Some cfg \<and> enabled cfg)"
proof -
  have v: "findVerified us a = Some u \<Longrightarrow> isEmailVerified u" for u
    by (auto simp: findVerified_def find_Some_iff)
  show ?thesis
    unfolding autoReplyOf_def find_verifiedAmong[OF assms]
    by (auto split: option.splits dest: v)
qed

lemma content_fields:
  "content c = d \<Longrightarrow>
     sender c = sender d \<and> recipients c = recipients d \<and> cc c = cc d \<and> bcc c = bcc d \<and>
     subject c = subject d \<and> body c = body d \<and> attachments c = attachments d \<and>
     folder c = folder d \<and> isSpam c = isSpam d \<and> isRead c = isRead d \<and>
     isStarred c = isStarred d \<and> sentAt c = sentAt d"
  by (auto simp: content_def)

lemma inboxCopy_fields:
  "sender (inboxCopy ev s v a) = sender s" "recipients (inboxCopy ev s v a) = [a]"
  "cc (inboxCopy ev s v a) = cc s" "bcc (inboxCopy ev s v a) = bcc s"
  "subject (inboxCopy ev s v a) = subject s" "body (inboxCopy ev s v a) = body s"
  "attachments (inboxCopy ev s v a) = attachments s"
  "folder (inboxCopy ev s v a) = (if v then Spam else Inbox)"
  "isSpam (inboxCopy ev s v a) = v"
  by (simp_all add: inboxCopy_def)

lemma sentCopy_fields:
  "sender (sentCopy ev me rs ccs bccs subj bod atts) = me"
  "recipients (sentCopy ev me rs ccs bccs subj bod atts) = rs"
  "cc (sentCopy ev me rs ccs bccs subj bod atts) = ccs"
  "bcc (sentCopy ev me rs ccs bccs subj bod atts) = bccs"
  "subject (sentCopy ev me rs ccs bccs subj bod atts) = subj"
  "body (sentCopy ev me rs ccs bccs subj bod atts) = bod"
  "attachments (sentCopy ev me rs ccs bccs subj bod atts) = atts"
  "folder (sentCopy ev me rs ccs bccs subj bod atts) = Sent"
  "isSpam (sentCopy ev me rs ccs bccs subj bod atts) = False"
  by (simp_all add: sentCopy_def new_Email_def)

lemma autoReplyDoc_fields:
  "sender (autoReplyDoc ev s a cfg fld) = a"
  "recipients (autoReplyDoc ev s a cfg fld) = [sender s]"
  "subject (autoReplyDoc ev s a cfg fld) = ''Auto Reply: '' @ subject s"
  "body (autoReplyDoc ev s a cfg fld) = message cfg"
  "folder (autoReplyDoc ev s a cfg fld) = fld"
  "isSpam (autoReplyDoc ev s a cfg fld) = False"
  by (simp_all add: autoReplyDoc_def new_Email_def)

lemma count_one_distinct:
  "distinct xs \<Longrightarrow> a \<in> set xs \<Longrightarrow> length (filter (\<lambda>x. x = a) xs) = 1"
proof (induction xs)
  case Nil
  then show ?case by simp
next
  case (Cons x xs)
  show ?case
  proof (cases "x = a")
    case True
    with Cons.prems have "a \<notin> set xs" by simp
    then have "filter (\<lambda>x. x = a) xs = []" by (auto simp: filter_empty_conv)
    with True show ?thesis by simp
  next
    case False
    with Cons show ?thesis by simp
  qed
qed

lemma fanOut_no_autoReply:
  assumes "\<forall>a \<in> set rs. autoReplyDocs ev us ars s v a = []"
  shows "fanOut ev us ars s v rs ccs bccs = map (inboxCopy ev s v) (rs @ ccs @ bccs)"
proof -
  have "concat (map (\<lambda>a. inboxCopy ev s v a # autoReplyDocs ev us ars s v a) rs) =
      map (inboxCopy ev s v) rs"
    using assms by (induction rs) auto
  then show ?thesis by (simp add: fanOut_def)
qed


lemma map_content_props:
  assumes "map content new = map f as"
  shows "length new = length as"
    and "\<And>c. c \<in> set new \<Longrightarrow> \<exists>a \<in> set as. content c = f a"
    and "\<And>a. a \<in> set as \<Longrightarrow> \<exists>c \<in> set new. content c = f a"
proof -
  show "length new = length as"
    using assms by (metis length_map)
  show "\<exists>a \<in> set as. content c = f a" if "c \<in> set new" for c
  proof -
    from that have "content c \<in> set (map content new)" by simp
    then show ?thesis unfolding assms by auto
  qed
  show "\<exists>c \<in> set new. content c = f a" if "a \<in> set as" for a
  proof -
    from that have "f a \<in> set (map content new)" unfolding assms by simp
    then show ?thesis by auto
  qed
qed

lemma recipients_content: "recipients (content c) = recipients c"
  by (simp add: content_def)

lemma count_copies:
  assumes m: "map content new = map (inboxCopy ev s v) as"
      and d: "distinct as" and a: "a \<in> set as"
  shows "length (filter (\<lambda>c. recipients c = [a]) new) = 1"
proof -
  have "length (filter (\<lambda>c. recipients c = [a]) new) =
      length (filter (\<lambda>d. recipients d = [a]) (map content new))"
    by (simp add: filter_map comp_def recipients_content)
  also have "\<dots> = length (filter (\<lambda>x. x = a) as)"
    unfolding m by (simp add: filter_map comp_def inboxCopy_fields)
  also have "\<dots> = 1"
    using d a by (rule count_one_distinct)
  finally show ?thesis .
qed

text \<open>
  \<^bold>\<open>C2.\<close> A successful \<open>/send\<close> to pairwise distinct addresses, none of the To
  recipients having auto-reply enabled, appends to the stored messages exactly the
  sender's copy in folder sent followed by one copy per address of To, CC and BCC; the
  classifier has been called once; and every copy carries the one verdict: spam folder and
  spam flag when it is true, inbox and no flag otherwise.
\<close>

theorem send_fan_out_count:
  assumes "authenticated ev t w u me"
      and "send ev t req w = (Ok_message ''Email sent successfully'', w')"
      and "distinct (To_of ev req @ Cc_of ev req @ Bcc_of ev req)"
      and "\<forall>a \<in> set (To_of ev req). \<forall>u cfg.
             findVerified (users w) a = Some u \<and>
             find (\<lambda>c. ar_userId c = user_id u) (autoReplies w) = Some cfg \<longrightarrow> \<not> enabled cfg"
  shows "\<exists>s copies.
           emails w' = emails w @ s # copies \<and>
           folder s = Sent \<and> sender s = me \<and> \<not> isSpam s \<and>
           length copies =
             length (To_of ev req) + length (Cc_of ev req) + length (Bcc_of ev req) \<and>
           (\<forall>a \<in> set (To_of ev req @ Cc_of ev req @ Bcc_of ev req).
              length (filter (\<lambda>c. recipients c = [a]) copies) = 1) \<and>
           (\<forall>c \<in> set copies.
              isSpam c = verdictOf ev (users w) me (To_of ev req) (stringOf (s_subject req))
                           (stringOf (s_body req)) (map attachmentOf (s_files req)) \<and>
              folder c = (if isSpam c then Spam else Inbox)) \<and>
           spam_calls w' = Suc (spam_calls w)"
proof -
  let ?rs = "To_of ev req" and ?ccs = "Cc_of ev req" and ?bccs = "Bcc_of ev req"
  let ?sc = "sentCopy ev me ?rs ?ccs ?bccs (stringOf (s_subject req)) (stringOf (s_body req))
               (map attachmentOf (s_files req))"
  let ?v = "verdictOf ev (users w) me ?rs (stringOf (s_subject req)) (stringOf (s_body req))
              (map attachmentOf (s_files req))"
  let ?rus = "verifiedAmong (users w) (remdups (?rs @ ?ccs @ ?bccs))"
  from send_try_Ok[OF send_Ok[OF assms(1,2)]] obtain s new where
    em: "emails w' = emails w @ s # new" and calls: "spam_calls w' = Suc (spam_calls w)"
    and cs: "content s = ?sc"
    and fo: "map content new = fanOut ev ?rus (autoReplies w) ?sc ?v ?rs ?ccs ?bccs"
    by blast
  have "autoReplyDocs ev ?rus (autoReplies w) ?sc ?v a = []" if a: "a \<in> set ?rs" for a
  proof -
    have "a \<in> set (remdups (?rs @ ?ccs @ ?bccs))"
      using a by simp
    from autoReplyOf_verifiedAmong[OF this, of "users w" "autoReplies w"] assms(4) a
    have "autoReplyOf ?rus (autoReplies w) a = None"
      by (cases "autoReplyOf ?rus (autoReplies w) a") auto
    then show ?thesis by (simp add: autoReplyDocs_def)
  qed
  then have m: "map content new = map (inboxCopy ev ?sc ?v) (?rs @ ?ccs @ ?bccs)"
    unfolding fo by (intro fanOut_no_autoReply) simp
  have len: "length new = length ?rs + length ?ccs + length ?bccs"
    using map_content_props(1)[OF m] by simp
  have one: "\<forall>a \<in> set (?rs @ ?ccs @ ?bccs). length (filter (\<lambda>c. recipients c = [a]) new) = 1"
    using count_copies[OF m assms(3)] by blast
  have verdict: "\<forall>c \<in> set new. isSpam c = ?v \<and> folder c = (if isSpam c then Spam else Inbox)"
  proof
    fix c assume "c \<in> set new"
    from map_content_props(2)[OF m this] obtain a where "content c = inboxCopy ev ?sc ?v a"
      by blast
    from content_fields[OF this] show "isSpam c = ?v \<and> folder c = (if isSpam c then Spam else Inbox)"
      by (simp add: inboxCopy_fields)
  qed
  have sent: "folder s = Sent \<and> sender s = me \<and> \<not> isSpam s"
    using content_fields[OF cs] by (simp add: sentCopy_fields)
  from em sent len one verdict calls show ?thesis
    by blast
qed


lemma req_hello_lists:
  "To_of ev_ok req_hello = [''a@x.com'', ''b@x.com'']"
  "Cc_of ev_ok req_hello = []"
  "Bcc_of ev_ok req_hello = []"
  by code_simp+

lemma send_hello_world0:
  "fst (send ev_ok (TokenFor 1) req_hello world0) = Ok_message ''Email sent successfully''"
  by code_simp

theorem send_fan_out_count_witness:
  "length (emails (snd (send ev_ok (TokenFor 1) req_hello world0))) = 3 \<and>
   spam_calls (snd (send ev_ok (TokenFor 1) req_hello world0)) = 1"
proof -
  let ?w' = "snd (send ev_ok (TokenFor 1) req_hello world0)"
  have a: "authenticated ev_ok (TokenFor 1) world0 user_s ''s@x.com''"
    using authenticated_example[where es = "emails world0" and ls = "labelsTbl world0"
        and ars = "autoReplies world0"]
    by simp
  have ok: "send ev_ok (TokenFor 1) req_hello world0 =
      (Ok_message ''Email sent successfully'', ?w')"
    using send_hello_world0 by (simp add: prod_eq_iff)
  have d: "distinct (To_of ev_ok req_hello @ Cc_of ev_ok req_hello @ Bcc_of ev_ok req_hello)"
    unfolding req_hello_lists by simp
  have n: "\<forall>a \<in> set (To_of ev_ok req_hello). \<forall>u cfg.
             findVerified (users world0) a = Some u \<and>
             find (\<lambda>c. ar_userId c = user_id u) (autoReplies world0) = Some cfg \<longrightarrow> \<not> enabled cfg"
    by (simp add: world0_def)
  from send_fan_out_count[OF a ok d n] obtain s copies where
    "emails ?w' = emails world0 @ s # copies"
    and "length copies =
      length (To_of ev_ok req_hello) + length (Cc_of ev_ok req_hello) +
      length (Bcc_of ev_ok req_hello)"
    and "spam_calls ?w' = Suc (spam_calls world0)"
    by blast
  then show ?thesis
    unfolding req_hello_lists by (simp add: world0_def)
qed

section \<open>Auto-replies of /send\<close>

lemma in_autoReplyDocs:
  "d \<in> set (autoReplyDocs ev us ars s v a) \<longleftrightarrow>
     \<not> v \<and> (\<exists>cfg. autoReplyOf us ars a = Some cfg \<and>
                  (d = autoReplyDoc ev s a cfg Sent \<or> d = autoReplyDoc ev s a cfg Inbox))"
  by (cases "autoReplyOf us ars a") (auto simp: autoReplyDocs_def)

lemma in_fanOut:
  "d \<in> set (fanOut ev us ars s v rs ccs bccs) \<longleftrightarrow>
     (\<exists>a \<in> set (rs @ ccs @ bccs). d = inboxCopy ev s v a) \<or>
     (\<exists>a \<in> set rs. d \<in> set (autoReplyDocs ev us ars s v a))"
  by (auto simp: fanOut_def)

lemma subject_not_prefixed: "subj \<noteq> ''Auto Reply: '' @ subj"
proof
  assume "subj = ''Auto Reply: '' @ subj"
  then have "length subj = length (''Auto Reply: '' @ subj)" by simp
  then show False by simp
qed






section \<open>What the copies of /send carry\<close>

text \<open>
  \<^bold>\<open>C3\<close>, as the specification states it, fails: user s sends one message to users a and
  b; the request succeeds, the sender's copy names both recipients, and the copy stored
  for a names a alone, the copy stored for b names b alone.
\<close>

theorem send_copy_recipients_counterexample:
  "fst (send ev_ok (TokenFor 1) req_hello world0) = Ok_message ''Email sent successfully'' \<and>
   map recipients (emails (snd (send ev_ok (TokenFor 1) req_hello world0))) =
     [[''a@x.com'', ''b@x.com''], [''a@x.com''], [''b@x.com'']]"
  by code_simp

text \<open>
  \<^bold>\<open>C3\<close>, amended. After a successful \<open>/send\<close> the sender's copy carries the full To, CC
  and BCC lists. For every address of the three lists a copy is stored whose recipients
  field is that address alone, and which has the sender, CC list, BCC list, subject, body,
  attachments and time of the sender's copy. Every stored message with the subject of the
  request, the sender's copy apart, is such a copy.
\<close>

theorem send_copy_metadata:
  assumes "authenticated ev t w u me"
      and "send ev t req w = (Ok_message ''Email sent successfully'', w')"
  shows "\<exists>s copies.
           emails w' = emails w @ s # copies \<and>
           sender s = me \<and> recipients s = To_of ev req \<and> cc s = Cc_of ev req \<and>
           bcc s = Bcc_of ev req \<and> subject s = stringOf (s_subject req) \<and>
           body s = stringOf (s_body req) \<and> attachments s = map attachmentOf (s_files req) \<and>
           (\<forall>a \<in> set (To_of ev req @ Cc_of ev req @ Bcc_of ev req).
              \<exists>c \<in> set copies.
                recipients c = [a] \<and> cc c = cc s \<and> bcc c = bcc s \<and> sender c = sender s \<and>
                subject c = subject s \<and> body c = body s \<and> attachments c = attachments s \<and>
                sentAt c = sentAt s) \<and>
           (\<forall>c \<in> set copies. subject c = subject s \<longrightarrow>
              (\<exists>a \<in> set (To_of ev req @ Cc_of ev req @ Bcc_of ev req).
                 recipients c = [a] \<and> cc c = cc s \<and> bcc c = bcc s \<and> sender c = sender s \<and>
                 body c = body s \<and> attachments c = attachments s \<and> sentAt c = sentAt s))"
proof -
  let ?rs = "To_of ev req" and ?ccs = "Cc_of ev req" and ?bccs = "Bcc_of ev req"
  let ?subj = "stringOf (s_subject req)"
  let ?sc = "sentCopy ev me ?rs ?ccs ?bccs ?subj (stringOf (s_body req))
               (map attachmentOf (s_files req))"
  let ?v = "verdictOf ev (users w) me ?rs ?subj (stringOf (s_body req))
              (map attachmentOf (s_files req))"
  let ?rus = "verifiedAmong (users w) (remdups (?rs @ ?ccs @ ?bccs))"
  from send_try_Ok[OF send_Ok[OF assms(1,2)]] obtain s new where
    em: "emails w' = emails w @ s # new"
    and cs: "content s = ?sc"
    and fo: "map content new = fanOut ev ?rus (autoReplies w) ?sc ?v ?rs ?ccs ?bccs"
    by blast
  have s: "sender s = me" "recipients s = ?rs" "cc s = ?ccs" "bcc s = ?bccs"
    "subject s = ?subj" "body s = stringOf (s_body req)"
    "attachments s = map attachmentOf (s_files req)" "sentAt s = sentAt ?sc"
    using content_fields[OF cs] by (simp_all add: sentCopy_fields)
  have copy: "recipients c = [a] \<and> cc c = cc s \<and> bcc c = bcc s \<and> sender c = sender s \<and>
      subject c = subject s \<and> body c = body s \<and> attachments c = attachments s \<and>
      sentAt c = sentAt s"
    if "content c = inboxCopy ev ?sc ?v a" for c a
    using content_fields[OF that] unfolding s
    by (simp add: inboxCopy_fields sentCopy_fields) (simp add: inboxCopy_def)
  have each: "\<forall>a \<in> set (?rs @ ?ccs @ ?bccs).
      \<exists>c \<in> set new.
        recipients c = [a] \<and> cc c = cc s \<and> bcc c = bcc s \<and> sender c = sender s \<and>
        subject c = subject s \<and> body c = body s \<and> attachments c = attachments s \<and>
        sentAt c = sentAt s"
  proof
    fix a assume "a \<in> set (?rs @ ?ccs @ ?bccs)"
    then have "inboxCopy ev ?sc ?v a \<in> set (map content new)"
      unfolding fo in_fanOut by blast
    then obtain c where "c \<in> set new" "content c = inboxCopy ev ?sc ?v a"
      by auto
    with copy[of c a] show "\<exists>c \<in> set new.
        recipients c = [a] \<and> cc c = cc s \<and> bcc c = bcc s \<and> sender c = sender s \<and>
        subject c = subject s \<and> body c = body s \<and> attachments c = attachments s \<and>
        sentAt c = sentAt s"
      by blast
  qed
  have only: "\<forall>c \<in> set new. subject c = subject s \<longrightarrow>
      (\<exists>a \<in> set (?rs @ ?ccs @ ?bccs).
         recipients c = [a] \<and> cc c = cc s \<and> bcc c = bcc s \<and> sender c = sender s \<and>
         body c = body s \<and> attachments c = attachments s \<and> sentAt c = sentAt s)"
  proof (intro ballI impI)
    fix c assume c: "c \<in> set new" and sub: "subject c = subject s"
    from c have "content c \<in> set (map content new)" by simp
    then consider a where "a \<in> set (?rs @ ?ccs @ ?bccs)" "content c = inboxCopy ev ?sc ?v a"
      | a cfg fld where "content c = autoReplyDoc ev ?sc a cfg fld"
      unfolding fo in_fanOut in_autoReplyDocs by blast
    then show "\<exists>a \<in> set (?rs @ ?ccs @ ?bccs).
         recipients c = [a] \<and> cc c = cc s \<and> bcc c = bcc s \<and> sender c = sender s \<and>
         body c = body s \<and> attachments c = attachments s \<and> sentAt c = sentAt s"
    proof cases
      case 1
      with copy[of c a] show ?thesis by blast
    next
      case 2
      from content_fields[OF this] have "subject c = ''Auto Reply: '' @ ?subj"
        by (simp add: autoReplyDoc_fields sentCopy_fields)
      with sub s(5) subject_not_prefixed[of ?subj] show ?thesis by simp
    qed
  qed
  from em s each only show ?thesis
    by (intro exI[of _ s] exI[of _ new]) simp
qed

theorem send_copy_metadata_witness:
  "[''b@x.com''] \<in> set (map recipients (emails (snd (send ev_ok (TokenFor 1) req_hello world0)))) \<and>
   hd (map recipients (emails (snd (send ev_ok (TokenFor 1) req_hello world0)))) =
     [''a@x.com'', ''b@x.com'']"
proof -
  let ?w' = "snd (send ev_ok (TokenFor 1) req_hello world0)"
  have a: "authenticated ev_ok (TokenFor 1) world0 user_s ''s@x.com''"
    using authenticated_example[where es = "emails world0" and ls = "labelsTbl world0"
        and ars = "autoReplies world0"]
    by simp
  have ok: "send ev_ok (TokenFor 1) req_hello world0 =
      (Ok_message ''Email sent successfully'', ?w')"
    using send_hello_world0 by (simp add: prod_eq_iff)
  from send_copy_metadata[OF a ok] obtain s copies where
    em: "emails ?w' = emails world0 @ s # copies"
    and rs: "recipients s = To_of ev_ok req_hello"
    and each: "\<forall>a \<in> set (To_of ev_ok req_hello @ Cc_of ev_ok req_hello @ Bcc_of ev_ok req_hello).
              \<exists>c \<in> set copies. recipients c = [a]"
    by blast
  from each obtain c where "c \<in> set copies" "recipients c = [''b@x.com'']"
    unfolding req_hello_lists by auto
  then have "[''b@x.com''] \<in> set (map recipients (emails ?w'))"
    unfolding em by force
  moreover have "hd (map recipients (emails ?w')) = [''a@x.com'', ''b@x.com'']"
    unfolding em using rs by (simp add: world0_def req_hello_lists)
  ultimately show ?thesis by simp
qed

section \<open>A copy that the store refuses\<close>














end
